theory Spec2Isabelle
  imports Complex_Main "HOL-Library.Word" "HOL-Library.Signed_Division"
begin

section \<open>Sizes and vectors\<close>

text \<open>
  The benchmark is built for a 64-bit target (RK3588, aarch64): \<open>size_t\<close> is a 64-bit
  unsigned integer whose arithmetic wraps around. A \<open>std::vector\<close> is a list; reading or
  writing \<open>v[i]\<close> with \<open>i\<close> outside the vector is undefined behaviour in C++, which the
  model makes explicit as \<open>None\<close>.
\<close>

type_synonym size_t = "64 word"

definition vec_at :: "'a list \<Rightarrow> size_t \<Rightarrow> 'a option" where
  "vec_at v i = (if unat i < length v then Some (v ! unat i) else None)"

definition vec_put :: "'a list \<Rightarrow> size_t \<Rightarrow> 'a \<Rightarrow> 'a list option" where
  "vec_put v i x = (if unat i < length v then Some (v[unat i := x]) else None)"

section \<open>The naive backend\<close>

text \<open>
  \<open>matmul_naive\<close> (bench.cpp, lines 133 to 146). The three nested \<open>for\<close> loops are three
  recursive functions over the loop counter, innermost first. The element type is kept
  abstract (anything with \<open>0\<close>, \<open>+\<close> and \<open>*\<close>), so that the order of the additions stays
  visible in what is proved.
\<close>

function naive_k ::
  "'a::{zero,plus,times} list \<Rightarrow> 'a list \<Rightarrow> size_t \<Rightarrow> size_t \<Rightarrow> size_t \<Rightarrow> size_t \<Rightarrow> size_t \<Rightarrow> 'a
     \<Rightarrow> 'a option" where
  "naive_k A B K N i j k acc =
     (if k < K then
        (case vec_at A (i * K + k) of
           None \<Rightarrow> None
         | Some a \<Rightarrow>
            (case vec_at B (k * N + j) of
               None \<Rightarrow> None
             | Some b \<Rightarrow> naive_k A B K N i j (k + 1) (acc + a * b)))
      else Some acc)"
  by pat_completeness auto
termination
  by (relation "measure (\<lambda>(A, B, K, N, i, j, k, acc). unat K - unat k)") (simp, unat_arith)

declare naive_k.simps [simp del]

function naive_j ::
  "'a::{zero,plus,times} list \<Rightarrow> 'a list \<Rightarrow> size_t \<Rightarrow> size_t \<Rightarrow> size_t \<Rightarrow> size_t \<Rightarrow> 'a list
     \<Rightarrow> 'a list option" where
  "naive_j A B K N i j C =
     (if j < N then
        (case naive_k A B K N i j 0 0 of
           None \<Rightarrow> None
         | Some acc \<Rightarrow>
            (case vec_put C (i * N + j) acc of
               None \<Rightarrow> None
             | Some C' \<Rightarrow> naive_j A B K N i (j + 1) C'))
      else Some C)"
  by pat_completeness auto
termination
  by (relation "measure (\<lambda>(A, B, K, N, i, j, C). unat N - unat j)") (simp, unat_arith)

declare naive_j.simps [simp del]

function naive_i ::
  "'a::{zero,plus,times} list \<Rightarrow> 'a list \<Rightarrow> size_t \<Rightarrow> size_t \<Rightarrow> size_t \<Rightarrow> size_t \<Rightarrow> 'a list
     \<Rightarrow> 'a list option" where
  "naive_i A B M K N i C =
     (if i < M then
        (case naive_j A B K N i 0 C of
           None \<Rightarrow> None
         | Some C' \<Rightarrow> naive_i A B M K N (i + 1) C')
      else Some C)"
  by pat_completeness auto
termination
  by (relation "measure (\<lambda>(A, B, M, K, N, i, C). unat M - unat i)") (simp, unat_arith)

declare naive_i.simps [simp del]

text \<open>
  \<open>std::vector<float> C(M * N)\<close> holds \<open>M * N\<close> zeros, the product computed in
  \<open>size_t\<close>. Running out of memory is not modelled.
\<close>

definition matmul_naive ::
  "'a::{zero,plus,times} list \<Rightarrow> 'a list \<Rightarrow> size_t \<Rightarrow> size_t \<Rightarrow> size_t \<Rightarrow> 'a list option" where
  "matmul_naive A B M K N = naive_i A B M K N 0 (replicate (unat (M * N)) 0)"

section \<open>The library backend\<close>

datatype CBLAS_ORDER = CblasRowMajor | CblasColMajor

datatype CBLAS_TRANSPOSE = CblasNoTrans | CblasTrans

text \<open>
  \<open>cblas_sgemm\<close> is the external dense linear algebra routine of section 6 of the
  specification; its header and its code are not part of the sources. The routine "accepts
  row-major storage order, explicit transpose flags per operand, leading dimensions (strides)
  per operand, and scalar pre/post-multiply factors; computes
  \<open>C := alpha*op(A)*op(B) + beta*C\<close> in place into a caller-provided buffer", where
  \<open>op(A)\<close> is \<open>M x K\<close>, \<open>op(B)\<close> is \<open>K x N\<close> and \<open>C\<close> is \<open>M x N\<close>. In the C interface
  the dimensions and the strides have the type \<open>int\<close>: 32 bits in two's complement, a word
  read with \<open>sint\<close>.
\<close>

type_synonym c_int = "32 word"

text \<open>
  Modelled from the spec: the position in its buffer of the element in row \<open>r\<close> and
  column \<open>c\<close> of \<open>op(X)\<close>, for a storage order, a transpose flag and the leading
  dimension \<open>ld\<close> of \<open>X\<close>.
\<close>

definition op_index :: "CBLAS_ORDER \<Rightarrow> CBLAS_TRANSPOSE \<Rightarrow> nat \<Rightarrow> nat \<Rightarrow> nat \<Rightarrow> nat" where
  "op_index Order Trans ld r c =
     (if (Order = CblasRowMajor) = (Trans = CblasNoTrans) then r * ld + c else c * ld + r)"

text \<open>
  Modelled from the spec: the row and the column of \<open>C\<close> stored at position \<open>p\<close> of
  the output buffer with leading dimension \<open>ldc\<close>.
\<close>

definition cell_of :: "CBLAS_ORDER \<Rightarrow> nat \<Rightarrow> nat \<Rightarrow> nat \<times> nat" where
  "cell_of Order ldc p =
     (if Order = CblasRowMajor then (p div ldc, p mod ldc) else (p mod ldc, p div ldc))"

text \<open>
  Modelled from the spec: the least leading dimension of \<open>X\<close> when \<open>op(X)\<close> has the
  given numbers of rows and columns: the length of a stored row (row-major) or column.
\<close>

definition min_ld :: "CBLAS_ORDER \<Rightarrow> CBLAS_TRANSPOSE \<Rightarrow> nat \<Rightarrow> nat \<Rightarrow> nat" where
  "min_ld Order Trans rows cols =
     (if (Order = CblasRowMajor) = (Trans = CblasNoTrans) then cols else rows)"

text \<open>
  Modelled from the spec: the leading dimensions are legal when each is at least 1 and at
  least the length of a stored row or column of its operand.
\<close>

definition sgemm_legal ::
  "CBLAS_ORDER \<Rightarrow> CBLAS_TRANSPOSE \<Rightarrow> CBLAS_TRANSPOSE \<Rightarrow> nat \<Rightarrow> nat \<Rightarrow> nat \<Rightarrow> nat \<Rightarrow> nat \<Rightarrow> nat
     \<Rightarrow> bool" where
  "sgemm_legal Order TransA TransB M N K lda ldb ldc \<longleftrightarrow>
     max 1 (min_ld Order TransA M K) \<le> lda \<and>
     max 1 (min_ld Order TransB K N) \<le> ldb \<and>
     max 1 (min_ld Order CblasNoTrans M N) \<le> ldc"

text \<open>
  Modelled from the spec: the three buffers hold every element the routine addresses.
\<close>

definition sgemm_fits ::
  "CBLAS_ORDER \<Rightarrow> CBLAS_TRANSPOSE \<Rightarrow> CBLAS_TRANSPOSE \<Rightarrow> nat \<Rightarrow> nat \<Rightarrow> nat \<Rightarrow> nat \<Rightarrow> nat \<Rightarrow> nat
     \<Rightarrow> nat \<Rightarrow> nat \<Rightarrow> nat \<Rightarrow> bool" where
  "sgemm_fits Order TransA TransB M N K lenA lda lenB ldb lenC ldc \<longleftrightarrow>
     list_all (\<lambda>i. list_all (\<lambda>k. op_index Order TransA lda i k < lenA) [0..<K]) [0..<M] \<and>
     list_all (\<lambda>k. list_all (\<lambda>j. op_index Order TransB ldb k j < lenB) [0..<N]) [0..<K] \<and>
     list_all (\<lambda>i. list_all (\<lambda>j. op_index Order CblasNoTrans ldc i j < lenC) [0..<N]) [0..<M]"

text \<open>
  Modelled from the spec: the computation of the routine, on natural numbers as dimensions and
  strides, returning the output buffer after the call. Every element of \<open>C\<close> becomes \<open>alpha\<close> times the product entry plus \<open>beta\<close> times
  its old value; positions of the buffer between the rows of \<open>C\<close> keep their value. A call
  outside the routine's contract (an illegal leading dimension, or a buffer too short for the
  elements addressed) has no result.
\<close>

definition sgemm ::
  "CBLAS_ORDER \<Rightarrow> CBLAS_TRANSPOSE \<Rightarrow> CBLAS_TRANSPOSE \<Rightarrow> nat \<Rightarrow> nat \<Rightarrow> nat \<Rightarrow> real \<Rightarrow> real list
     \<Rightarrow> nat \<Rightarrow> real list \<Rightarrow> nat \<Rightarrow> real \<Rightarrow> real list \<Rightarrow> nat \<Rightarrow> real list option" where
  "sgemm Order TransA TransB M N K alpha A lda B ldb beta C ldc =
     (if sgemm_legal Order TransA TransB M N K lda ldb ldc \<and>
         sgemm_fits Order TransA TransB M N K (length A) lda (length B) ldb (length C) ldc
      then Some (map (\<lambda>p. case cell_of Order ldc p of (i, j) \<Rightarrow>
                    if i < M \<and> j < N
                    then alpha * (\<Sum>k\<leftarrow>[0..<K]. A ! op_index Order TransA lda i k *
                                               B ! op_index Order TransB ldb k j)
                         + beta * C ! p
                    else C ! p) [0..<length C])
      else None)"

text \<open>
  Modelled from the spec: \<open>cblas_sgemm\<close> as the C interface exposes it. A negative
  dimension or stride is outside the routine's contract.
\<close>

definition cblas_sgemm ::
  "CBLAS_ORDER \<Rightarrow> CBLAS_TRANSPOSE \<Rightarrow> CBLAS_TRANSPOSE \<Rightarrow> c_int \<Rightarrow> c_int \<Rightarrow> c_int \<Rightarrow> real \<Rightarrow> real list
     \<Rightarrow> c_int \<Rightarrow> real list \<Rightarrow> c_int \<Rightarrow> real \<Rightarrow> real list \<Rightarrow> c_int \<Rightarrow> real list option" where
  "cblas_sgemm Order TransA TransB M N K alpha A lda B ldb beta C ldc =
     (if sint M < 0 \<or> sint N < 0 \<or> sint K < 0 \<or> sint lda < 0 \<or> sint ldb < 0 \<or> sint ldc < 0
      then None
      else sgemm Order TransA TransB (nat (sint M)) (nat (sint N)) (nat (sint K)) alpha
             A (nat (sint lda)) B (nat (sint ldb)) beta C (nat (sint ldc)))"

text \<open>
  \<open>matmul_cblas\<close> (bench.cpp, lines 148 to 153): the output vector of \<open>M * N\<close> zeros is
  handed to the routine with the operands' leading dimensions \<open>K\<close> and \<open>N\<close>, the left
  operand not transposed and the right operand transposed. The call converts the \<open>size_t\<close>
  dimensions to \<open>int\<close>: the low 32 bits are kept.
\<close>

definition matmul_cblas :: "real list \<Rightarrow> real list \<Rightarrow> size_t \<Rightarrow> size_t \<Rightarrow> size_t \<Rightarrow> real list option" where
  "matmul_cblas A B M K N =
     cblas_sgemm CblasRowMajor CblasNoTrans CblasTrans (ucast M) (ucast N) (ucast K) 1 A (ucast K)
       B (ucast N) 0 (replicate (unat (M * N)) 0) (ucast N)"

section \<open>Floating-point values\<close>

text \<open>
  The values of \<open>float\<close> and \<open>double\<close>: the finite ones are real numbers, besides them
  there are the two infinities and NaN. The two zeros are one value; a division by zero is
  taken as a division by \<open>+0\<close>, which is what the program's divisions by a count and by
  \<open>1000.0f\<close> are.
\<close>

datatype fp = Fin real | PInf | MInf | NaN

text \<open>
  Rounding to nearest, ties to even, of a real number to a binary format with \<open>p\<close>
  significant bits whose least unit is \<open>2^emin\<close> and whose finite values are below
  \<open>2^emax\<close> in magnitude: \<open>rne\<close> rounds to an integer, \<open>expo\<close> is the exponent of the
  unit in the last place of the format at \<open>x\<close>, and a result of magnitude \<open>2^emax\<close>
  or more is an infinity.
\<close>

definition rne :: "real \<Rightarrow> int" where
  "rne x =
     (if x - of_int \<lfloor>x\<rfloor> < 1 / 2 then \<lfloor>x\<rfloor>
      else if 1 / 2 < x - of_int \<lfloor>x\<rfloor> then \<lfloor>x\<rfloor> + 1
      else if even \<lfloor>x\<rfloor> then \<lfloor>x\<rfloor> else \<lfloor>x\<rfloor> + 1)"

definition expo :: "nat \<Rightarrow> int \<Rightarrow> real \<Rightarrow> int" where
  "expo p emin x = (if x = 0 then emin else max emin (\<lfloor>log 2 \<bar>x\<bar>\<rfloor> - int p + 1))"

definition round_real :: "nat \<Rightarrow> int \<Rightarrow> real \<Rightarrow> real" where
  "round_real p emin x = of_int (rne (x / 2 powi expo p emin x)) * 2 powi expo p emin x"

definition round_fp :: "nat \<Rightarrow> int \<Rightarrow> int \<Rightarrow> real \<Rightarrow> fp" where
  "round_fp p emin emax x =
     (let y = round_real p emin x
      in if 2 powi emax \<le> \<bar>y\<bar> then (if 0 < y then PInf else MInf) else Fin y)"

text \<open>
  An arithmetic is the function that turns the exact result of an operation into a value.
  \<open>binary32\<close> and \<open>binary64\<close> are the arithmetics of \<open>float\<close> and \<open>double\<close> on the
  machines the program is written for (IEEE 754, default rounding); \<open>exact\<close> is the
  arithmetic that does not round.
\<close>

definition binary32 :: "real \<Rightarrow> fp" where
  "binary32 x = round_fp 24 (- 149) 128 x"

definition binary64 :: "real \<Rightarrow> fp" where
  "binary64 x = round_fp 53 (- 1074) 1024 x"

definition exact :: "real \<Rightarrow> fp" where
  "exact x = Fin x"

text \<open>
  The operations the program uses, in an arithmetic \<open>r\<close>: on finite operands the exact
  result is rounded by \<open>r\<close>, on the other operands the result is the one of IEEE 754.
  Comparisons with NaN are false.
\<close>

fun fneg :: "fp \<Rightarrow> fp" where
  "fneg (Fin a) = Fin (- a)"
| "fneg PInf = MInf"
| "fneg MInf = PInf"
| "fneg NaN = NaN"

fun fadd :: "(real \<Rightarrow> fp) \<Rightarrow> fp \<Rightarrow> fp \<Rightarrow> fp" where
  "fadd r (Fin a) (Fin b) = r (a + b)"
| "fadd r NaN y = NaN"
| "fadd r x NaN = NaN"
| "fadd r PInf MInf = NaN"
| "fadd r MInf PInf = NaN"
| "fadd r PInf y = PInf"
| "fadd r x PInf = PInf"
| "fadd r MInf y = MInf"
| "fadd r x MInf = MInf"

definition fsub :: "(real \<Rightarrow> fp) \<Rightarrow> fp \<Rightarrow> fp \<Rightarrow> fp" where
  "fsub r x y = fadd r x (fneg y)"

fun fmul :: "(real \<Rightarrow> fp) \<Rightarrow> fp \<Rightarrow> fp \<Rightarrow> fp" where
  "fmul r (Fin a) (Fin b) = r (a * b)"
| "fmul r NaN y = NaN"
| "fmul r x NaN = NaN"
| "fmul r (Fin a) PInf = (if a = 0 then NaN else if 0 < a then PInf else MInf)"
| "fmul r (Fin a) MInf = (if a = 0 then NaN else if 0 < a then MInf else PInf)"
| "fmul r PInf (Fin b) = (if b = 0 then NaN else if 0 < b then PInf else MInf)"
| "fmul r MInf (Fin b) = (if b = 0 then NaN else if 0 < b then MInf else PInf)"
| "fmul r PInf PInf = PInf"
| "fmul r PInf MInf = MInf"
| "fmul r MInf PInf = MInf"
| "fmul r MInf MInf = PInf"

fun fdiv :: "(real \<Rightarrow> fp) \<Rightarrow> fp \<Rightarrow> fp \<Rightarrow> fp" where
  "fdiv r (Fin a) (Fin b) =
     (if b = 0 then (if a = 0 then NaN else if 0 < a then PInf else MInf) else r (a / b))"
| "fdiv r NaN y = NaN"
| "fdiv r x NaN = NaN"
| "fdiv r (Fin a) PInf = Fin 0"
| "fdiv r (Fin a) MInf = Fin 0"
| "fdiv r PInf (Fin b) = (if 0 \<le> b then PInf else MInf)"
| "fdiv r MInf (Fin b) = (if 0 \<le> b then MInf else PInf)"
| "fdiv r PInf y = NaN"
| "fdiv r MInf y = NaN"

fun fsqrt :: "(real \<Rightarrow> fp) \<Rightarrow> fp \<Rightarrow> fp" where
  "fsqrt r (Fin a) = (if a < 0 then NaN else r (sqrt a))"
| "fsqrt r PInf = PInf"
| "fsqrt r MInf = NaN"
| "fsqrt r NaN = NaN"

fun fless :: "fp \<Rightarrow> fp \<Rightarrow> bool" where
  "fless (Fin a) (Fin b) = (a < b)"
| "fless NaN y = False"
| "fless x NaN = False"
| "fless MInf MInf = False"
| "fless MInf y = True"
| "fless x MInf = False"
| "fless PInf y = False"
| "fless x PInf = True"

fun fle :: "fp \<Rightarrow> fp \<Rightarrow> bool" where
  "fle (Fin a) (Fin b) = (a \<le> b)"
| "fle NaN y = False"
| "fle x NaN = False"
| "fle MInf y = True"
| "fle x PInf = True"
| "fle PInf y = False"
| "fle x MInf = False"

section \<open>Statistics\<close>

text \<open>
  \<open>calculateAverage\<close> and \<open>calculateStdDev\<close> (bench.cpp, lines 98 to 119), in the
  arithmetic \<open>r\<close> of \<open>double\<close>: the program runs them in \<open>binary64\<close>. A \<open>float\<close>
  sample enters an operation with its own value, and the count \<open>vec.size()\<close> is converted
  to \<open>double\<close>. Every operation rounds on its own. On an empty vector the division
  \<open>0.0 / 0\<close> yields NaN.
\<close>

fun average_loop :: "(real \<Rightarrow> fp) \<Rightarrow> fp \<Rightarrow> fp list \<Rightarrow> fp" where
  "average_loop r acc [] = acc"
| "average_loop r acc (v # vec) = average_loop r (fadd r acc v) vec"

definition calculateAverage :: "(real \<Rightarrow> fp) \<Rightarrow> fp list \<Rightarrow> fp" where
  "calculateAverage r vec = fdiv r (average_loop r (Fin 0) vec) (r (real (length vec)))"

fun stddev_loop :: "(real \<Rightarrow> fp) \<Rightarrow> fp \<Rightarrow> fp \<Rightarrow> fp list \<Rightarrow> fp" where
  "stddev_loop r mean acc [] = acc"
| "stddev_loop r mean acc (v # vec) =
     stddev_loop r mean (fadd r acc (fmul r (fsub r v mean) (fsub r v mean))) vec"

definition calculateStdDev :: "(real \<Rightarrow> fp) \<Rightarrow> fp list \<Rightarrow> fp" where
  "calculateStdDev r vec =
     (let mean = calculateAverage r vec
      in fsqrt r (fdiv r (stddev_loop r mean (Fin 0) vec) (r (real (length vec)))))"

text \<open>
  \<open>*std::min_element(first, last)\<close>: the first smallest element; on an empty range the
  iterator returned is \<open>last\<close> and dereferencing it is undefined.
\<close>

fun min_element_loop :: "fp \<Rightarrow> fp list \<Rightarrow> fp" where
  "min_element_loop smallest [] = smallest"
| "min_element_loop smallest (v # vec) =
     min_element_loop (if fless v smallest then v else smallest) vec"

declare min_element_loop.simps [simp del]

fun min_element :: "fp list \<Rightarrow> fp option" where
  "min_element [] = None"
| "min_element (v # vec) = Some (min_element_loop v vec)"

section \<open>The environment of the program\<close>

text \<open>
  Everything outside the program is a field of the state \<open>world\<close>: the random source,
  the system clock and the accelerator are oracles, read through a counter of the calls made
  so far, so that nothing is assumed about the values they deliver. \<open>first\<close> is the
  function-local \<open>static bool first = true\<close> of the closure built by \<open>rknn_setup\<close>: the
  closure type has one call operator, so the program has one such variable. \<open>trace\<close> is
  the sequence of calls into the two libraries, in program order, with one ghost event for
  each entry into \<open>matmul_naive\<close>.
\<close>

datatype fault = Aborted | Undefined

datatype slot = Slot_A | Slot_B | Slot_C

datatype event =
    Call_matmul_naive
  | Call_cblas_sgemm
  | Rknn_matmul_create int
  | Rknn_create_mem nat nat
  | Rknn_matmul_set_io_mem nat nat slot
  | Rknn_matmul_run nat
  | Rknn_destroy_mem nat nat
  | Rknn_matmul_destroy nat

datatype contents = Uninitialised | Halves "real list" | Singles "real list"

record rknn_tensor_mem =
  mem_size :: nat
  virt_addr :: contents

datatype out_item =
    Text string
  | Printf string int
  | Row size_t "(fp \<times> fp \<times> fp) list"

record world =
  entropy :: "nat \<Rightarrow> real"
  drawn :: nat
  clock :: "nat \<Rightarrow> int"
  ticks :: nat
  stdout :: "out_item list"
  first :: bool
  create_status :: "nat \<Rightarrow> int"
  plan_sizes :: "nat \<Rightarrow> nat \<times> nat \<times> nat"
  npu_output :: "nat \<Rightarrow> nat \<Rightarrow> real"
  creates :: nat
  runs :: nat
  next_mem :: nat
  mems :: "nat \<Rightarrow> rknn_tensor_mem option"
  contexts :: "nat list"
  bindings :: "nat \<times> slot \<Rightarrow> nat option"
  trace :: "event list"

type_synonym 'a prog = "world \<Rightarrow> (fault + 'a) \<times> world"

type_synonym backend = "real list \<Rightarrow> real list \<Rightarrow> size_t \<Rightarrow> size_t \<Rightarrow> size_t \<Rightarrow> real list prog"

definition emit :: "event \<Rightarrow> world \<Rightarrow> world" where
  "emit e w = w\<lparr>trace := trace w @ [e]\<rparr>"

subsection \<open>The accelerator driver\<close>

text \<open>
  The calls of \<open>rknn_matmul_api.h\<close>, which is not part of the sources, follow section 6
  of the specification ("Accelerator driver"): plan negotiation for a shape and a precision
  format, returning the required buffer sizes; allocation and release of memory regions tied
  to a device context; binding of a region to an operand slot; synchronous execution of the
  plan; teardown of the context. The status of a negotiation, the buffer sizes it asks for
  and the values an execution leaves in the output region come from the oracles.
\<close>

datatype rknn_matmul_type = RKNN_FLOAT16_MM_FLOAT16_TO_FLOAT32

record rknn_matmul_info =
  info_M :: "32 word"
  info_K :: "32 word"
  info_N :: "32 word"
  info_type :: rknn_matmul_type
  AC_layout :: int
  B_layout :: int

record rknn_matmul_io_attr =
  A_size :: nat
  B_size :: nat
  C_size :: nat

text \<open>
  Modelled from the spec: plan negotiation. It returns the status, the handle of the context
  and the sizes in bytes of the three regions the plan needs. The handle is the number of the
  negotiation; a negotiation with a negative status makes no context.
\<close>

definition rknn_matmul_create :: "rknn_matmul_info \<Rightarrow> world \<Rightarrow> (int \<times> nat \<times> rknn_matmul_io_attr) \<times> world" where
  "rknn_matmul_create minfo w =
     (let ret = create_status w (creates w);
          h = creates w;
          attr = (case plan_sizes w h of (a, b, c) \<Rightarrow> \<lparr>A_size = a, B_size = b, C_size = c\<rparr>)
      in ((ret, h, attr),
          emit (Rknn_matmul_create ret)
            (w\<lparr>creates := creates w + 1,
               contexts := (if ret < 0 then contexts w else contexts w @ [h])\<rparr>)))"

text \<open>
  Modelled from the spec: allocation of a memory region of \<open>sz\<close> bytes tied to the context
  \<open>h\<close>. The region is new and its contents are not initialised.
\<close>

definition rknn_create_mem :: "nat \<Rightarrow> nat \<Rightarrow> world \<Rightarrow> nat \<times> world" where
  "rknn_create_mem h sz w =
     (next_mem w,
      emit (Rknn_create_mem h (next_mem w))
        (w\<lparr>next_mem := next_mem w + 1,
           mems := (mems w)(next_mem w \<mapsto> \<lparr>mem_size = sz, virt_addr = Uninitialised\<rparr>)\<rparr>))"

text \<open>
  Modelled from the spec: binding of a region to an operand slot of a context. The slot is
  named by the attribute record handed to the call.
\<close>

definition rknn_matmul_set_io_mem :: "nat \<Rightarrow> nat \<Rightarrow> slot \<Rightarrow> world \<Rightarrow> world" where
  "rknn_matmul_set_io_mem h mem attr w =
     emit (Rknn_matmul_set_io_mem h mem attr) (w\<lparr>bindings := (bindings w)((h, attr) \<mapsto> mem)\<rparr>)"

text \<open>
  Modelled from the spec: what an execution does to the memory regions. The region \<open>out\<close>
  is filled with 32-bit floats, as many as it has room for, delivered by the oracle.
\<close>

definition device_write :: "nat \<Rightarrow> world \<Rightarrow> nat \<Rightarrow> rknn_tensor_mem option" where
  "device_write out w =
     (case mems w out of
        None \<Rightarrow> mems w
      | Some m \<Rightarrow> (mems w)(out \<mapsto>
          m\<lparr>virt_addr := Singles (map (npu_output w (runs w)) [0..<mem_size m div 4])\<rparr>))"

text \<open>
  Modelled from the spec: synchronous execution of the plan of a context. The result goes to
  the region bound to the output slot.
\<close>

definition rknn_matmul_run :: "nat \<Rightarrow> world \<Rightarrow> world" where
  "rknn_matmul_run h w =
     emit (Rknn_matmul_run h)
       (w\<lparr>runs := runs w + 1,
          mems := (case bindings w (h, Slot_C) of
                     None \<Rightarrow> mems w
                   | Some out \<Rightarrow> device_write out w)\<rparr>)"

text \<open>Modelled from the spec: release of a memory region.\<close>

definition rknn_destroy_mem :: "nat \<Rightarrow> nat \<Rightarrow> world \<Rightarrow> world" where
  "rknn_destroy_mem h mem w = emit (Rknn_destroy_mem h mem) (w\<lparr>mems := (mems w)(mem := None)\<rparr>)"

text \<open>Modelled from the spec: teardown of a context.\<close>

definition rknn_matmul_destroy :: "nat \<Rightarrow> world \<Rightarrow> world" where
  "rknn_matmul_destroy h w = emit (Rknn_matmul_destroy h) (w\<lparr>contexts := removeAll h (contexts w)\<rparr>)"

subsection \<open>The hardware context\<close>

text \<open>
  \<open>RKNNMatMulCtx\<close> (bench.cpp, lines 21 to 37). The three regions are named by their
  numbers in \<open>mems\<close>; the pointers \<open>a\<close>, \<open>b\<close> and \<open>c\<close> of the source alias the regions'
  \<open>virt_addr\<close> and have no field of their own. The \<open>size_t\<close> dimensions are narrowed to
  \<open>int32_t\<close> at the call of \<open>make_matmul\<close>.
\<close>

record RKNNMatMulCtx =
  ctx :: nat
  info :: rknn_matmul_info
  io_attr :: rknn_matmul_io_attr
  mem_A :: nat
  mem_B :: nat
  mem_C :: nat
  ctx_M :: "32 word"
  ctx_K :: "32 word"
  ctx_N :: "32 word"

text \<open>
  \<open>make_matmul\<close> (bench.cpp, lines 39 to 75). A negative status is printed and the process
  aborts. \<open>malloc\<close> and \<open>rknn_create_mem\<close> are taken to succeed.
\<close>

definition make_matmul :: "32 word \<Rightarrow> 32 word \<Rightarrow> 32 word \<Rightarrow> RKNNMatMulCtx prog" where
  "make_matmul M K N w =
     (let minfo = \<lparr>info_M = M, info_K = K, info_N = N,
                 info_type = RKNN_FLOAT16_MM_FLOAT16_TO_FLOAT32, AC_layout = 1, B_layout = 1\<rparr> in
      case rknn_matmul_create minfo w of
        ((ret, h, attr), w1) \<Rightarrow>
          if ret < 0 then
            (Inl Aborted, w1\<lparr>stdout := stdout w1 @ [Printf ''rknn_matmul_create fail! ret=%d\<newline>'' ret]\<rparr>)
          else
            (let (a, w2) = rknn_create_mem h (A_size attr) w1;
                 (b, w3) = rknn_create_mem h (B_size attr) w2;
                 (c, w4) = rknn_create_mem h (C_size attr) w3
             in (Inr \<lparr>ctx = h, info = minfo, io_attr = attr, mem_A = a, mem_B = b, mem_C = c,
                      ctx_M = M, ctx_K = K, ctx_N = N\<rparr>,
                 rknn_matmul_set_io_mem h c Slot_C
                   (rknn_matmul_set_io_mem h b Slot_B
                     (rknn_matmul_set_io_mem h a Slot_A w4)))))"

text \<open>
  \<open>set_matrix_data\<close> (bench.cpp, lines 77 to 85): \<open>mem->size / sizeof(float16)\<close> elements
  are read from \<open>data\<close>, narrowed to 16 bits and stored in the region; then the region is
  bound again. A value \<open>x\<close> in \<open>Halves\<close> stands for the 16-bit float nearest to the
  \<open>float\<close> \<open>x\<close>. Reading \<open>data\<close> past its end is undefined.
\<close>

function set_matrix_loop :: "real list \<Rightarrow> size_t \<Rightarrow> size_t \<Rightarrow> real list \<Rightarrow> real list option" where
  "set_matrix_loop data sz i ptr =
     (if i < sz then
        (case vec_at data i of
           None \<Rightarrow> None
         | Some x \<Rightarrow> set_matrix_loop data sz (i + 1) (ptr @ [x]))
      else Some ptr)"
  by pat_completeness auto
termination
  by (relation "measure (\<lambda>(data, sz, i, ptr). unat sz - unat i)") (simp, unat_arith)

declare set_matrix_loop.simps [simp del]

definition set_matrix_data :: "nat \<Rightarrow> nat \<Rightarrow> slot \<Rightarrow> real list \<Rightarrow> unit prog" where
  "set_matrix_data h mem attr data w =
     (case mems w mem of
        None \<Rightarrow> (Inl Undefined, w)
      | Some m \<Rightarrow>
         (case set_matrix_loop data (of_nat (mem_size m div 2)) 0 [] of
            None \<Rightarrow> (Inl Undefined, w)
          | Some ptr \<Rightarrow>
             (Inr (),
              rknn_matmul_set_io_mem h mem attr
                (w\<lparr>mems := (mems w)(mem \<mapsto> m\<lparr>virt_addr := Halves ptr\<rparr>)\<rparr>))))"

text \<open>\<open>free_matmul\<close> (bench.cpp, lines 87 to 96).\<close>

definition free_matmul :: "RKNNMatMulCtx \<Rightarrow> world \<Rightarrow> world" where
  "free_matmul c w =
     rknn_matmul_destroy (ctx c)
       (rknn_destroy_mem (ctx c) (mem_C c)
         (rknn_destroy_mem (ctx c) (mem_B c)
           (rknn_destroy_mem (ctx c) (mem_A c) w)))"

section \<open>The benchmark runner\<close>

text \<open>
  \<open>make_random_matrix\<close> (bench.cpp, lines 121 to 131): \<open>M * N\<close> values, the product
  computed in \<open>size_t\<close>, each the next output of the random source.
\<close>

definition make_random_matrix :: "size_t \<Rightarrow> size_t \<Rightarrow> world \<Rightarrow> real list \<times> world" where
  "make_random_matrix M N w =
     (map (\<lambda>i. entropy w (drawn w + i)) [0..<unat (M * N)],
      w\<lparr>drawn := drawn w + unat (M * N)\<rparr>)"

text \<open>
  \<open>std::chrono::system_clock::now()\<close> reads the clock, in nanoseconds. A sample is the
  difference of two readings, cut to whole milliseconds (\<open>duration_cast\<close> rounds towards
  zero), converted to \<open>float\<close> and divided by \<open>1000.0f\<close>.
\<close>

definition now :: "world \<Rightarrow> int \<times> world" where
  "now w = (clock w (ticks w), w\<lparr>ticks := ticks w + 1\<rparr>)"

definition seconds :: "int \<Rightarrow> int \<Rightarrow> fp" where
  "seconds start finish =
     fdiv binary32 (binary32 (real_of_int ((finish - start) sdiv 1000000))) (Fin 1000)"

text \<open>
  \<open>benchmark\<close> (bench.cpp, lines 155 to 169). The loop body reads the clock, calls the
  backend, reads the clock again and appends the sample. The minimum is a \<open>float\<close>, the
  average and the deviation are computed in \<open>double\<close>.
\<close>

function benchmark_loop ::
  "backend \<Rightarrow> real list \<Rightarrow> real list \<Rightarrow> size_t \<Rightarrow> size_t \<Rightarrow> size_t \<Rightarrow> size_t \<Rightarrow> size_t \<Rightarrow> fp list
     \<Rightarrow> fp list prog" where
  "benchmark_loop func A B M K N repeat i samples w =
     (if i < repeat then
        (case func A B M K N (snd (now w)) of
           (Inl e, w2) \<Rightarrow> (Inl e, w2)
         | (Inr C, w2) \<Rightarrow>
             benchmark_loop func A B M K N repeat (i + 1)
               (samples @ [seconds (fst (now w)) (fst (now w2))]) (snd (now w2)))
      else (Inr samples, w))"
  by pat_completeness auto
termination
  by (relation "measure (\<lambda>(func, A, B, M, K, N, repeat, i, samples, w). unat repeat - unat i)")
     (simp, unat_arith)

declare benchmark_loop.simps [simp del]

definition benchmark :: "size_t \<Rightarrow> size_t \<Rightarrow> size_t \<Rightarrow> size_t \<Rightarrow> backend \<Rightarrow> (fp \<times> fp \<times> fp) prog" where
  "benchmark M K N repeat func w =
     (let (A, w1) = make_random_matrix M K w;
          (B, w2) = make_random_matrix K N w1;
          (start, w3) = now w2
      in case benchmark_loop func A B M K N repeat 0 [] w3 of
           (Inl e, w4) \<Rightarrow> (Inl e, w4)
         | (Inr samples, w4) \<Rightarrow>
             (case min_element samples of
                None \<Rightarrow> (Inl Undefined, w4)
              | Some smallest \<Rightarrow>
                  (Inr (smallest, calculateAverage binary64 samples, calculateStdDev binary64 samples),
                   w4)))"

section \<open>The three backends and the driver\<close>

text \<open>
  \<open>matmul_naive\<close> and \<open>matmul_cblas\<close> as the runner calls them: a result outside the
  model of the function (an access out of bounds, a call outside the routine's contract) is
  undefined behaviour of the program.
\<close>

definition matmul_naive_call :: backend where
  "matmul_naive_call A B M K N w =
     (case matmul_naive A B M K N of
        None \<Rightarrow> (Inl Undefined, emit Call_matmul_naive w)
      | Some C \<Rightarrow> (Inr C, emit Call_matmul_naive w))"

definition matmul_cblas_call :: backend where
  "matmul_cblas_call A B M K N w =
     (case matmul_cblas A B M K N of
        None \<Rightarrow> (Inl Undefined, emit Call_cblas_sgemm w)
      | Some C \<Rightarrow> (Inr C, emit Call_cblas_sgemm w))"

text \<open>
  The closure returned by \<open>rknn_setup\<close> (bench.cpp, lines 177 to 189): \<open>rknn_setup\<close>
  makes the context, \<open>rknn c\<close> is the closure that captured it. The result is read from
  the output region, \<open>M * N\<close> floats from its start.
\<close>

definition rknn_setup :: "size_t \<Rightarrow> size_t \<Rightarrow> size_t \<Rightarrow> RKNNMatMulCtx prog" where
  "rknn_setup M K N w = make_matmul (ucast M) (ucast K) (ucast N) w"

definition read_floats :: "nat \<Rightarrow> nat \<Rightarrow> real list prog" where
  "read_floats mem n w =
     (case mems w mem of
        None \<Rightarrow> (Inl Undefined, w)
      | Some m \<Rightarrow>
         (case virt_addr m of
            Singles xs \<Rightarrow> if n \<le> length xs then (Inr (take n xs), w) else (Inl Undefined, w)
          | _ \<Rightarrow> (Inl Undefined, w)))"

definition rknn :: "RKNNMatMulCtx \<Rightarrow> backend" where
  "rknn c A B M K N w =
     (case (if first w then
              (case set_matrix_data (ctx c) (mem_A c) Slot_A A (w\<lparr>first := False\<rparr>) of
                 (Inl e, w1) \<Rightarrow> (Inl e, w1)
               | (Inr u, w1) \<Rightarrow> set_matrix_data (ctx c) (mem_B c) Slot_B B w1)
            else (Inr (), w)) of
        (Inl e, w2) \<Rightarrow> (Inl e, w2)
      | (Inr u, w2) \<Rightarrow> read_floats (mem_C c) (unat (M * N)) (rknn_matmul_run (ctx c) w2))"

text \<open>\<open>bench_all\<close> (bench.cpp, lines 171 to 194).\<close>

definition bench_all :: "size_t \<Rightarrow> size_t \<Rightarrow> size_t \<Rightarrow> size_t \<Rightarrow> (fp \<times> fp \<times> fp) list prog" where
  "bench_all M K N repeat w =
     (case benchmark M K N 3 matmul_naive_call w of
        (Inl e, w1) \<Rightarrow> (Inl e, w1)
      | (Inr r1, w1) \<Rightarrow>
     (case benchmark M K N repeat matmul_cblas_call w1 of
        (Inl e, w2) \<Rightarrow> (Inl e, w2)
      | (Inr r2, w2) \<Rightarrow>
     (case rknn_setup M K N w2 of
        (Inl e, w3) \<Rightarrow> (Inl e, w3)
      | (Inr c, w3) \<Rightarrow>
     (case benchmark M K N repeat (rknn c) w3 of
        (Inl e, w4) \<Rightarrow> (Inl e, w4)
      | (Inr r3, w4) \<Rightarrow> (Inr [r1, r2, r3], w4)))))"

text \<open>
  \<open>main\<close> (bench.cpp, lines 198 to 220): \<open>main_loop\<close> is its loop over the sizes, which
  prints one row for each. The formatting of the numbers is not modelled.
\<close>

fun main_loop :: "size_t list \<Rightarrow> size_t \<Rightarrow> unit prog" where
  "main_loop [] repeat w = (Inr (), w)"
| "main_loop (sz # sizes) repeat w =
     (case bench_all sz sz sz repeat w of
        (Inl e, w1) \<Rightarrow> (Inl e, w1)
      | (Inr ret, w1) \<Rightarrow> main_loop sizes repeat (w1\<lparr>stdout := stdout w1 @ [Row sz ret]\<rparr>))"

definition main :: "int prog" where
  "main w =
     (case main_loop [256, 512, 1024, 2048] 20
             (w\<lparr>stdout := stdout w @
                  [Text ''| size | naive, (min, avg, std) | cblas, (min, avg, std) | rknn, (min, avg, std) |'',
                   Text ''| --- | --- | --- | --- |'']\<rparr>) of
        (Inl e, w') \<Rightarrow> (Inl e, w')
      | (Inr u, w') \<Rightarrow> (Inr 0, w'))"

text \<open>
  The state in which the process starts, for given oracles: nothing has been drawn, read,
  printed or allocated, and the static flag has its initialiser \<open>true\<close>.
\<close>

definition initial_world ::
  "(nat \<Rightarrow> real) \<Rightarrow> (nat \<Rightarrow> int) \<Rightarrow> (nat \<Rightarrow> int) \<Rightarrow> (nat \<Rightarrow> nat \<times> nat \<times> nat) \<Rightarrow> (nat \<Rightarrow> nat \<Rightarrow> real)
     \<Rightarrow> world" where
  "initial_world rnd clk status sizes out =
     \<lparr>entropy = rnd, drawn = 0, clock = clk, ticks = 0, stdout = [], first = True,
      create_status = status, plan_sizes = sizes, npu_output = out, creates = 0, runs = 0,
      next_mem = 0, mems = Map.empty, contexts = [], bindings = Map.empty, trace = []\<rparr>"

section \<open>Specification-level notions\<close>

text \<open>
  The entry \<open>(i, j)\<close> of the product of a row-major \<open>M x K\<close> matrix and a row-major
  \<open>K x N\<close> matrix, the terms added one after the other for \<open>k = 0, 1, ..., K - 1\<close>.
\<close>

definition dot_ascending :: "'a::{zero,plus,times} list \<Rightarrow> 'a list \<Rightarrow> nat \<Rightarrow> nat \<Rightarrow> nat \<Rightarrow> nat \<Rightarrow> 'a" where
  "dot_ascending A B K N i j = foldl (\<lambda>s k. s + A ! (i * K + k) * B ! (k * N + j)) 0 [0..<K]"

text \<open>
  The transpose of a row-major \<open>rows x cols\<close> matrix, as a row-major \<open>cols x rows\<close>
  matrix.
\<close>

definition transpose_rm :: "nat \<Rightarrow> nat \<Rightarrow> 'a list \<Rightarrow> 'a list" where
  "transpose_rm rows cols B = map (\<lambda>p. B ! ((p mod rows) * cols + p div rows)) [0..<rows * cols]"

text \<open>
  The values number \<open>off\<close> to \<open>off + n - 1\<close> among those the random source delivers
  from the state \<open>w\<close> on.
\<close>

definition random_values :: "world \<Rightarrow> nat \<Rightarrow> nat \<Rightarrow> real list" where
  "random_values w off n = map (\<lambda>i. entropy w (drawn w + off + i)) [0..<n]"

text \<open>
  The inputs of a benchmark of the shape \<open>(M, K, N)\<close> that starts in the state \<open>w\<close>:
  \<open>A\<close> is the next \<open>M * K\<close> values of the random source and \<open>B\<close> the \<open>K * N\<close> values
  after them, the products being those of the natural numbers; and the state in which the
  first timed invocation starts: these values are consumed and the clock has been read once.
\<close>

definition input_A :: "size_t \<Rightarrow> size_t \<Rightarrow> world \<Rightarrow> real list" where
  "input_A M K w = random_values w 0 (unat M * unat K)"

definition input_B :: "size_t \<Rightarrow> size_t \<Rightarrow> size_t \<Rightarrow> world \<Rightarrow> real list" where
  "input_B M K N w = random_values w (unat M * unat K) (unat K * unat N)"

definition timing_start :: "size_t \<Rightarrow> size_t \<Rightarrow> size_t \<Rightarrow> world \<Rightarrow> world" where
  "timing_start M K N w =
     w\<lparr>drawn := drawn w + unat M * unat K + unat K * unat N, ticks := ticks w + 1\<rparr>"

text \<open>
  The timing sample for the clock readings \<open>t0\<close> before and \<open>t1\<close> after an invocation,
  both in nanoseconds: the whole milliseconds elapsed, as a \<open>float\<close>, divided by 1000 in
  \<open>float\<close> arithmetic.
\<close>

definition timing_sample :: "int \<Rightarrow> int \<Rightarrow> fp" where
  "timing_sample t0 t1 =
     fdiv binary32
       (binary32 (real_of_int (if t0 \<le> t1 then (t1 - t0) div 1000000 else - ((t0 - t1) div 1000000))))
       (Fin 1000)"

text \<open>
  One timed invocation of the backend on the fixed inputs \<open>A\<close> and \<open>B\<close>: the clock is
  read, the backend runs, the clock is read again, and the sample of the two readings is
  appended to the samples taken so far.
\<close>

definition timed_call ::
  "backend \<Rightarrow> real list \<Rightarrow> real list \<Rightarrow> size_t \<Rightarrow> size_t \<Rightarrow> size_t \<Rightarrow> fp list \<times> world
     \<Rightarrow> fp list \<times> world" where
  "timed_call func A B M K N sw =
     (let w = snd sw;
          w2 = snd (func A B M K N (w\<lparr>ticks := ticks w + 1\<rparr>))
      in (fst sw @ [timing_sample (clock w (ticks w)) (clock w2 (ticks w2))],
          w2\<lparr>ticks := ticks w2 + 1\<rparr>))"

text \<open>
  The mean and the population standard deviation of a sequence of samples, evaluated in an
  arithmetic \<open>r\<close>: the sum of the samples, accumulated from 0 in their order, divided by
  their number; and the square root of the sum of the squared deviations from that mean,
  accumulated in the same way, divided by their number.
\<close>

definition mean_in :: "(real \<Rightarrow> fp) \<Rightarrow> fp list \<Rightarrow> fp" where
  "mean_in r S = fdiv r (foldl (fadd r) (Fin 0) S) (r (real (length S)))"

definition stddev_in :: "(real \<Rightarrow> fp) \<Rightarrow> fp list \<Rightarrow> fp" where
  "stddev_in r S =
     fsqrt r (fdiv r (foldl (\<lambda>acc x. fadd r acc (fmul r (fsub r x (mean_in r S)) (fsub r x (mean_in r S))))
                        (Fin 0) S)
                (r (real (length S))))"

text \<open>The number of events of a kind in the trace.\<close>

definition occurrences :: "(event \<Rightarrow> bool) \<Rightarrow> world \<Rightarrow> nat" where
  "occurrences p w = length (filter p (trace w))"

text \<open>
  The two matrices \<open>benchmark\<close> generates, as the code computes them, and the state in
  which its timing loop starts: after both matrices have been drawn and the clock has been
  read once.
\<close>

definition bench_A :: "size_t \<Rightarrow> size_t \<Rightarrow> size_t \<Rightarrow> world \<Rightarrow> real list" where
  "bench_A M K N w = fst (make_random_matrix M K w)"

definition bench_B :: "size_t \<Rightarrow> size_t \<Rightarrow> size_t \<Rightarrow> world \<Rightarrow> real list" where
  "bench_B M K N w = fst (make_random_matrix K N (snd (make_random_matrix M K w)))"

definition bench_start :: "size_t \<Rightarrow> size_t \<Rightarrow> size_t \<Rightarrow> world \<Rightarrow> world" where
  "bench_start M K N w = snd (now (snd (make_random_matrix K N (snd (make_random_matrix M K w)))))"

text \<open>
  A negotiation that returned a negative status, as an event; and what a run that ended in
  \<open>abort()\<close> leaves behind when the abort came from such a negotiation: the failed call is
  the last event of the trace (nothing was attempted after it), the last output is the
  message with the status, and it is the only failed negotiation of the run.
\<close>

definition failed_negotiation :: "event \<Rightarrow> bool" where
  "failed_negotiation e = (case e of Rknn_matmul_create st \<Rightarrow> st < 0 | _ \<Rightarrow> False)"

definition reported_failure :: "world \<Rightarrow> world \<Rightarrow> bool" where
  "reported_failure w w' \<longleftrightarrow>
     (\<exists>st. st < 0 \<and> trace w' \<noteq> [] \<and> last (trace w') = Rknn_matmul_create st \<and>
           stdout w' \<noteq> [] \<and> last (stdout w') = Printf ''rknn_matmul_create fail! ret=%d\<newline>'' st \<and>
           occurrences failed_negotiation w' = occurrences failed_negotiation w + 1)"

text \<open>The events by which a context is torn down: the calls \<open>free_matmul\<close> makes.\<close>

definition is_teardown :: "event \<Rightarrow> bool" where
  "is_teardown e =
     (case e of Rknn_destroy_mem h m \<Rightarrow> True | Rknn_matmul_destroy h \<Rightarrow> True | _ \<Rightarrow> False)"

text \<open>
  Two states with the same negotiations ahead: the oracles of the driver, the numbers of
  negotiations and allocations made, and the output are the same. Two states with the same
  device: moreover the flag, the memory regions and the bindings are the same, so that they
  differ at most in what the random source, the clock and the trace have delivered or
  recorded.
\<close>

definition same_plan :: "world \<Rightarrow> world \<Rightarrow> bool" where
  "same_plan w w' \<longleftrightarrow>
     create_status w' = create_status w \<and> plan_sizes w' = plan_sizes w \<and>
     creates w' = creates w \<and> next_mem w' = next_mem w \<and> stdout w' = stdout w"

definition same_device :: "world \<Rightarrow> world \<Rightarrow> bool" where
  "same_device w w' \<longleftrightarrow>
     same_plan w w' \<and> first w' = first w \<and> mems w' = mems w \<and> bindings w' = bindings w"

text \<open>
  The state of the device in which the closure of a context can be invoked on the matrices
  \<open>A\<close> and \<open>B\<close> and return \<open>n\<close> floats: the output region is bound and holds at least
  \<open>n\<close> floats, and, as long as the flag \<open>first\<close> is set, the two input regions hold no more
  16-bit values than the matrices have elements.
\<close>

definition rknn_ready :: "RKNNMatMulCtx \<Rightarrow> real list \<Rightarrow> real list \<Rightarrow> nat \<Rightarrow> world \<Rightarrow> bool" where
  "rknn_ready c A B n v \<longleftrightarrow>
     bindings v (ctx c, Slot_C) = Some (mem_C c) \<and>
     (\<exists>m. mems v (mem_C c) = Some m \<and> n \<le> mem_size m div 4) \<and>
     (\<not> first v \<or>
        mem_A c \<noteq> mem_B c \<and> mem_A c \<noteq> mem_C c \<and> mem_B c \<noteq> mem_C c \<and>
        (\<exists>m. mems v (mem_A c) = Some m \<and> mem_size m div 2 \<le> length A \<and> length A < 2 ^ 64) \<and>
        (\<exists>m. mems v (mem_B c) = Some m \<and> mem_size m div 2 \<le> length B \<and> length B < 2 ^ 64))"

text \<open>
  A device that serves the sizes of a run: the negotiation with handle \<open>h\<close> succeeds and
  asks for an output region of at least \<open>s * s\<close> floats and, when the inputs are still to be
  uploaded, for input regions of at most \<open>s * s\<close> 16-bit values; and so on for the next
  sizes and handles, with nothing left to upload.
\<close>

definition plan_ok :: "world \<Rightarrow> nat \<Rightarrow> size_t \<Rightarrow> bool \<Rightarrow> bool" where
  "plan_ok w h s upload \<longleftrightarrow>
     0 \<le> create_status w h \<and>
     (case plan_sizes w h of (a, b, c) \<Rightarrow>
        unat s * unat s \<le> c div 4 \<and>
        (\<not> upload \<or> a div 2 \<le> unat s * unat s \<and> b div 2 \<le> unat s * unat s))"

fun plans_ok :: "world \<Rightarrow> nat \<Rightarrow> bool \<Rightarrow> size_t list \<Rightarrow> bool" where
  "plans_ok w h upload [] = True"
| "plans_ok w h upload (s # sizes) =
     (1 \<le> unat s \<and> unat s < 2 ^ 31 \<and> plan_ok w h s upload \<and> plans_ok w (h + 1) False sizes)"

text \<open>
  Auxiliary notions for \<open>binary64\<close>: rounding as a function on the real numbers, and the
  values of the two loops and of the two statistics on finite samples as long as no result
  leaves the range of the format.
\<close>

definition round64 :: "real \<Rightarrow> real" where
  "round64 x = round_real 53 (- 1074) x"

fun sum64 :: "real \<Rightarrow> real list \<Rightarrow> real" where
  "sum64 a [] = a"
| "sum64 a (x # S) = sum64 (round64 (a + x)) S"

definition dev64 :: "real \<Rightarrow> real \<Rightarrow> real" where
  "dev64 m v = round64 (round64 (v - m) * round64 (v - m))"

definition mean64 :: "real list \<Rightarrow> real" where
  "mean64 S = round64 (sum64 0 S / real (length S))"

definition stddev64 :: "real list \<Rightarrow> real" where
  "stddev64 S =
     round64 (sqrt (round64 (sum64 0 (map (dev64 (mean64 S)) S) / real (length S))))"

section \<open>Size arithmetic\<close>

lemma unat_inc: "(k::size_t) < K \<Longrightarrow> unat (k + 1) = Suc (unat k)"
  by unat_arith

lemma unat_index_le:
  "unat ((a::size_t) * b + c) \<le> unat a * unat b + unat c"
  by (simp add: unat_word_ariths)

lemma unat_index_exact:
  "unat a * unat b + unat c < 2 ^ 64 \<Longrightarrow> unat ((a::size_t) * b + c) = unat a * unat b + unat c"
  by (simp add: unat_word_ariths mod_mult_right_eq mod_add_left_eq)

lemma row_major_bound: "(i::nat) < m \<Longrightarrow> k < n \<Longrightarrow> i * n + k < m * n"
proof -
  assume "i < m" "k < n"
  then have "i * n + k < Suc i * n" by simp
  also have "\<dots> \<le> m * n" using \<open>i < m\<close> by (intro mult_le_mono1) simp
  finally show ?thesis .
qed

lemma unat_size_bound: "unat (w::size_t) < 2 ^ 64"
proof -
  have "unat w < 2 ^ LENGTH(64)" by (rule unsigned_less)
  then show ?thesis by simp
qed

lemma unat_of_nat_size: "n < 2 ^ 64 \<Longrightarrow> unat (of_nat n :: size_t) = n"
  by (simp add: unat_of_nat)

section \<open>The naive backend: loop invariants\<close>

lemma naive_k_fold:
  "(\<And>k'. unat k \<le> k' \<Longrightarrow> k' < unat K \<Longrightarrow>
       unat (i * K + of_nat k') < length A \<and> unat (of_nat k' * N + j) < length B) \<Longrightarrow>
   naive_k A B K N i j k acc =
     Some (foldl (\<lambda>s k'. s + A ! unat (i * K + of_nat k') * B ! unat (of_nat k' * N + j))
             acc [unat k..<unat K])"
proof (induction A B K N i j k acc rule: naive_k.induct)
  case (1 A B K N i j k acc)
  show ?case
  proof (cases "k < K")
    case False
    then have "unat K \<le> unat k" by (simp add: word_less_nat_alt)
    with False show ?thesis by (simp add: naive_k.simps [of A B K N i j k acc])
  next
    case True
    then have lt: "unat k < unat K" by (simp add: word_less_nat_alt)
    have inc: "unat (k + 1) = Suc (unat k)" using True by (rule unat_inc)
    from "1.prems" [of "unat k"] lt
    have a: "vec_at A (i * K + k) = Some (A ! unat (i * K + k))"
      and b: "vec_at B (k * N + j) = Some (B ! unat (k * N + j))"
      by (simp_all add: vec_at_def)
    have ih: "naive_k A B K N i j (k + 1) (acc + A ! unat (i * K + k) * B ! unat (k * N + j)) =
        Some (foldl (\<lambda>s k'. s + A ! unat (i * K + of_nat k') * B ! unat (of_nat k' * N + j))
               (acc + A ! unat (i * K + k) * B ! unat (k * N + j)) [unat (k + 1)..<unat K])"
      by (rule "1.IH" [OF True a b]) (use "1.prems" inc in auto)
    show ?thesis
      using True a b ih lt
      by (simp add: naive_k.simps [of A B K N i j k acc] inc upt_conv_Cons)
  qed
qed

lemma naive_j_fill:
  fixes g :: "size_t \<Rightarrow> size_t \<Rightarrow> 'a::{zero,plus,times}"
  assumes cells: "\<And>j'. j' < N \<Longrightarrow> naive_k A B K N i j' 0 0 = Some (g i j')"
    and mn: "unat M * unat N < 2 ^ 64"
    and i: "i < M"
    and j: "unat j \<le> unat N"
    and len: "length C = unat M * unat N"
    and inv: "\<And>p. p < unat i * unat N + unat j \<Longrightarrow>
               C ! p = g (of_nat (p div unat N)) (of_nat (p mod unat N))"
  shows "\<exists>C'. naive_j A B K N i j C = Some C' \<and> length C' = unat M * unat N \<and>
           (\<forall>p < unat i * unat N + unat N.
               C' ! p = g (of_nat (p div unat N)) (of_nat (p mod unat N)))"
  using cells mn i j len inv
proof (induction A B K N i j C rule: naive_j.induct)
  case (1 A B K N i j C)
  show ?case
  proof (cases "j < N")
    case False
    then have "unat j = unat N" using "1.prems"(4) by (simp add: word_less_nat_alt)
    with False "1.prems" show ?thesis by (simp add: naive_j.simps [of A B K N i j C])
  next
    case True
    then have lt: "unat j < unat N" by (simp add: word_less_nat_alt)
    have inc: "unat (j + 1) = Suc (unat j)" using True by (rule unat_inc)
    have ilt: "unat i < unat M" using "1.prems"(3) by (simp add: word_less_nat_alt)
    have "unat i * unat N + unat j < Suc (unat i) * unat N" using lt by simp
    also have "\<dots> \<le> unat M * unat N" using ilt by (intro mult_le_mono1) simp
    finally have bound: "unat i * unat N + unat j < unat M * unat N" .
    then have idx: "unat (i * N + j) = unat i * unat N + unat j"
      using "1.prems"(2) by (simp add: unat_word_ariths mod_mult_right_eq mod_add_left_eq)
    have k: "naive_k A B K N i j 0 0 = Some (g i j)" using "1.prems"(1) True by simp
    have put: "vec_put C (i * N + j) (g i j) = Some (C[unat i * unat N + unat j := g i j])"
      using bound idx "1.prems"(5) by (simp add: vec_put_def)
    have "\<exists>C'. naive_j A B K N i (j + 1) (C[unat i * unat N + unat j := g i j]) = Some C' \<and>
            length C' = unat M * unat N \<and>
            (\<forall>p < unat i * unat N + unat N.
               C' ! p = g (of_nat (p div unat N)) (of_nat (p mod unat N)))"
    proof (rule "1.IH" [OF True k put])
      show "\<And>j'. j' < N \<Longrightarrow> naive_k A B K N i j' 0 0 = Some (g i j')" by (rule "1.prems"(1))
      show "unat M * unat N < 2 ^ 64" by (rule "1.prems"(2))
      show "i < M" by (rule "1.prems"(3))
      show "unat (j + 1) \<le> unat N" using lt inc by simp
      show "length (C[unat i * unat N + unat j := g i j]) = unat M * unat N"
        using "1.prems"(5) by simp
      fix p assume p: "p < unat i * unat N + unat (j + 1)"
      show "C[unat i * unat N + unat j := g i j] ! p =
              g (of_nat (p div unat N)) (of_nat (p mod unat N))"
      proof (cases "p = unat i * unat N + unat j")
        case True
        then have "p div unat N = unat i" "p mod unat N = unat j" using lt by simp_all
        then show ?thesis using True bound "1.prems"(5) by simp
      next
        case False
        then have "p < unat i * unat N + unat j" using p inc by simp
        then show ?thesis using False "1.prems"(6) by simp
      qed
    qed
    then show ?thesis using True k put by (simp add: naive_j.simps [of A B K N i j C])
  qed
qed

lemma naive_i_fill:
  fixes g :: "size_t \<Rightarrow> size_t \<Rightarrow> 'a::{zero,plus,times}"
  assumes cells: "\<And>i' j'. i' < M \<Longrightarrow> j' < N \<Longrightarrow> naive_k A B K N i' j' 0 0 = Some (g i' j')"
    and mn: "unat M * unat N < 2 ^ 64"
    and i: "unat i \<le> unat M"
    and len: "length C = unat M * unat N"
    and inv: "\<And>p. p < unat i * unat N \<Longrightarrow>
               C ! p = g (of_nat (p div unat N)) (of_nat (p mod unat N))"
  shows "\<exists>C'. naive_i A B M K N i C = Some C' \<and> length C' = unat M * unat N \<and>
           (\<forall>p < unat M * unat N.
               C' ! p = g (of_nat (p div unat N)) (of_nat (p mod unat N)))"
  using cells mn i len inv
proof (induction A B M K N i C rule: naive_i.induct)
  case (1 A B M K N i C)
  show ?case
  proof (cases "i < M")
    case False
    then have "unat i = unat M" using "1.prems"(3) by (simp add: word_less_nat_alt)
    with False "1.prems" show ?thesis by (simp add: naive_i.simps [of A B M K N i C])
  next
    case True
    have inc: "unat (i + 1) = Suc (unat i)" using True by (rule unat_inc)
    have "\<exists>C'. naive_j A B K N i 0 C = Some C' \<and> length C' = unat M * unat N \<and>
           (\<forall>p < unat i * unat N + unat N.
               C' ! p = g (of_nat (p div unat N)) (of_nat (p mod unat N)))"
      by (rule naive_j_fill [where g = g]) (use True "1.prems" in simp_all)
    then obtain C1 where j: "naive_j A B K N i 0 C = Some C1"
      and len1: "length C1 = unat M * unat N"
      and inv1: "\<And>p. p < unat i * unat N + unat N \<Longrightarrow>
               C1 ! p = g (of_nat (p div unat N)) (of_nat (p mod unat N))"
      by blast
    have "\<exists>C'. naive_i A B M K N (i + 1) C1 = Some C' \<and> length C' = unat M * unat N \<and>
           (\<forall>p < unat M * unat N.
               C' ! p = g (of_nat (p div unat N)) (of_nat (p mod unat N)))"
    proof (rule "1.IH" [OF True j])
      show "\<And>i' j'. i' < M \<Longrightarrow> j' < N \<Longrightarrow> naive_k A B K N i' j' 0 0 = Some (g i' j')"
        by (rule "1.prems"(1))
      show "unat M * unat N < 2 ^ 64" by (rule "1.prems"(2))
      show "unat (i + 1) \<le> unat M" using True inc by (simp add: word_less_nat_alt)
      show "length C1 = unat M * unat N" by (rule len1)
      fix p assume "p < unat (i + 1) * unat N"
      then show "C1 ! p = g (of_nat (p div unat N)) (of_nat (p mod unat N))"
        using inv1 [of p] inc by (simp add: add.commute)
    qed
    then show ?thesis using True j by (simp add: naive_i.simps [of A B M K N i C])
  qed
qed

lemma matmul_naive_cells:
  fixes g :: "size_t \<Rightarrow> size_t \<Rightarrow> 'a::{zero,plus,times}"
  assumes cells: "\<And>i j. i < M \<Longrightarrow> j < N \<Longrightarrow> naive_k A B K N i j 0 0 = Some (g i j)"
    and mn: "unat M * unat N < 2 ^ 64"
  shows "matmul_naive A B M K N =
           Some (map (\<lambda>p. g (of_nat (p div unat N)) (of_nat (p mod unat N))) [0..<unat M * unat N])"
proof -
  have len0: "unat (M * N) = unat M * unat N"
    using mn by (simp add: unat_word_ariths)
  have "\<exists>C'. naive_i A B M K N 0 (replicate (unat (M * N)) 0) = Some C' \<and>
           length C' = unat M * unat N \<and>
           (\<forall>p < unat M * unat N.
               C' ! p = g (of_nat (p div unat N)) (of_nat (p mod unat N)))"
    by (rule naive_i_fill [where g = g]) (use cells mn len0 in simp_all)
  then obtain C' where r: "naive_i A B M K N 0 (replicate (unat (M * N)) 0) = Some C'"
    and len: "length C' = unat M * unat N"
    and val: "\<And>p. p < unat M * unat N \<Longrightarrow>
               C' ! p = g (of_nat (p div unat N)) (of_nat (p mod unat N))"
    by blast
  have "C' = map (\<lambda>p. g (of_nat (p div unat N)) (of_nat (p mod unat N))) [0..<unat M * unat N]"
    by (rule nth_equalityI) (simp_all add: len val)
  with r show ?thesis by (simp add: matmul_naive_def)
qed

lemma matmul_naive_total:
  fixes A B :: "'a::{zero,plus,times} list"
  assumes a: "unat M * unat K \<le> length A" and b: "unat K * unat N \<le> length B"
    and mn: "unat M * unat N < 2 ^ 64"
  shows "\<exists>C. matmul_naive A B M K N = Some C \<and> length C = unat M * unat N"
proof -
  define g where "g = (\<lambda>i j. foldl (\<lambda>s k'. s + A ! unat (i * K + of_nat k') * B ! unat (of_nat k' * N + j))
             (0::'a) [unat (0::size_t)..<unat K])"
  have cells: "naive_k A B K N i j 0 0 = Some (g i j)" if i: "i < M" and j: "j < N" for i j
    unfolding g_def
  proof (rule naive_k_fold)
    fix k' assume k': "k' < unat K"
    then have k64: "k' < 2 ^ 64" using unat_size_bound [of K] by simp
    have kk: "unat (of_nat k' :: size_t) = k'" using k64 by (rule unat_of_nat_size)
    have "unat (i * K + of_nat k') \<le> unat i * unat K + k'"
      using unat_index_le [of i K "of_nat k'"] kk by simp
    also have "\<dots> < unat M * unat K"
      using i k' by (intro row_major_bound) (simp_all add: word_less_nat_alt)
    finally have 1: "unat (i * K + of_nat k') < length A" using a by simp
    have "unat (of_nat k' * N + j) \<le> k' * unat N + unat j"
      using unat_index_le [of "of_nat k'" N j] kk by simp
    also have "\<dots> < unat K * unat N"
      using j k' by (intro row_major_bound) (simp_all add: word_less_nat_alt)
    finally have 2: "unat (of_nat k' * N + j) < length B" using b by simp
    from 1 2 show "unat (i * K + of_nat k') < length A \<and> unat (of_nat k' * N + j) < length B" ..
  qed
  show ?thesis
    using matmul_naive_cells [of M N A B K g, OF cells mn] by simp
qed

lemma matmul_naive_value:
  fixes A B :: "'a::{zero,plus,times} list"
  assumes a: "length A = unat M * unat K" and b: "length B = unat K * unat N"
    and a64: "length A < 2 ^ 64" and b64: "length B < 2 ^ 64"
    and mn: "unat M * unat N < 2 ^ 64"
  shows "matmul_naive A B M K N =
     Some (map (\<lambda>p. dot_ascending A B (unat K) (unat N) (p div unat N) (p mod unat N))
            [0..<unat M * unat N])"
proof -
  define g where "g = (\<lambda>i j. dot_ascending A B (unat K) (unat N) (unat (i::size_t)) (unat (j::size_t)))"
  have cells: "naive_k A B K N i j 0 0 = Some (g i j)" if i: "i < M" and j: "j < N" for i j
  proof -
    have il: "unat i < unat M" and jl: "unat j < unat N"
      using i j by (simp_all add: word_less_nat_alt)
    have ex: "unat (i * K + of_nat k') = unat i * unat K + k' \<and>
              unat (of_nat k' * N + j) = k' * unat N + unat j" if k': "k' < unat K" for k'
    proof -
      have k64: "k' < 2 ^ 64" using unat_size_bound [of K] k' by simp
      have kk: "unat (of_nat k' :: size_t) = k'" using k64 by (rule unat_of_nat_size)
      have "unat i * unat K + k' < unat M * unat K" using il k' by (rule row_major_bound)
      then have 1: "unat i * unat (K::size_t) + unat (of_nat k' :: size_t) < 2 ^ 64"
        using a a64 kk by simp
      have "k' * unat N + unat j < unat K * unat N" using k' jl by (rule row_major_bound)
      then have 2: "unat (of_nat k' :: size_t) * unat N + unat j < 2 ^ 64"
        using b b64 kk by simp
      show ?thesis using unat_index_exact [OF 1] unat_index_exact [OF 2] kk by simp
    qed
    have "naive_k A B K N i j 0 0 =
        Some (foldl (\<lambda>s k'. s + A ! unat (i * K + of_nat k') * B ! unat (of_nat k' * N + j))
               0 [unat (0::size_t)..<unat K])"
    proof (rule naive_k_fold)
      fix k' assume k': "k' < unat K"
      have "unat i * unat K + k' < unat M * unat K" using il k' by (rule row_major_bound)
      moreover have "k' * unat N + unat j < unat K * unat N" using k' jl by (rule row_major_bound)
      ultimately show "unat (i * K + of_nat k') < length A \<and> unat (of_nat k' * N + j) < length B"
        using ex [OF k'] a b by simp
    qed
    also have "foldl (\<lambda>s k'. s + A ! unat (i * K + of_nat k') * B ! unat (of_nat k' * N + j))
               0 [unat (0::size_t)..<unat K] = g i j"
      unfolding g_def dot_ascending_def
      by (rule foldl_cong) (simp_all add: ex)
    finally show ?thesis .
  qed
  have "map (\<lambda>p. g (of_nat (p div unat N)) (of_nat (p mod unat N))) [0..<unat M * unat N] =
        map (\<lambda>p. dot_ascending A B (unat K) (unat N) (p div unat N) (p mod unat N)) [0..<unat M * unat N]"
  proof (rule map_cong [OF refl])
    fix p assume "p \<in> set [0..<unat M * unat N]"
    then have p: "p < unat M * unat N" by simp
    have "p div unat N \<le> p" "p mod unat N \<le> p" by simp_all
    with p mn have "p div unat N < 2 ^ 64" "p mod unat N < 2 ^ 64" by linarith+
    then show "g (of_nat (p div unat N)) (of_nat (p mod unat N)) =
               dot_ascending A B (unat K) (unat N) (p div unat N) (p mod unat N)"
      by (simp add: g_def unat_of_nat_size)
  qed
  with matmul_naive_cells [of M N A B K g, OF cells mn] show ?thesis by simp
qed

section \<open>Rounding to nearest\<close>

lemma rne_of_int [simp]: "rne (of_int k) = k"
  by (simp add: rne_def)

lemma rne_0 [simp]: "rne 0 = 0"
  by (simp add: rne_def)

lemma rne_lower: "of_int \<lfloor>x\<rfloor> \<le> (of_int (rne x) :: real)"
  by (simp add: rne_def)

lemma rne_floor_le: "\<lfloor>x\<rfloor> \<le> rne x"
  by (simp add: rne_def)

lemma rne_le_ceil: "rne x \<le> \<lfloor>x\<rfloor> + 1"
  by (simp add: rne_def)

lemma rne_mono: "x \<le> y \<Longrightarrow> rne x \<le> rne y"
proof -
  assume le: "x \<le> y"
  have f: "\<lfloor>x\<rfloor> \<le> \<lfloor>y\<rfloor>" using le by (rule floor_mono)
  show ?thesis
  proof (cases "\<lfloor>x\<rfloor> = \<lfloor>y\<rfloor>")
    case True
    then show ?thesis using le by (auto simp: rne_def)
  next
    case False
    then have "\<lfloor>x\<rfloor> + 1 \<le> \<lfloor>y\<rfloor>" using f by simp
    then show ?thesis using rne_le_ceil [of x] rne_floor_le [of y] by linarith
  qed
qed

lemma rne_minus: "rne (- x) = - rne x"
proof (cases "x \<in> \<int>")
  case True
  then obtain k where "x = of_int k" by (auto elim: Ints_cases)
  then have "- x = of_int (- k)" by simp
  then show ?thesis using \<open>x = of_int k\<close> by (simp only: rne_of_int)
next
  case False
  have ne: "x \<noteq> of_int \<lfloor>x\<rfloor>" using False by (metis Ints_of_int)
  then have fl: "\<lfloor>- x\<rfloor> = - \<lfloor>x\<rfloor> - 1"
    by (simp add: floor_minus ceiling_altdef)
  note ne
  moreover have "of_int \<lfloor>x\<rfloor> \<le> x" by simp
  ultimately have lt: "of_int \<lfloor>x\<rfloor> < x" by linarith
  show ?thesis unfolding rne_def fl using lt by (auto simp: algebra_simps)
qed

lemma rne_ge_int: "of_int k \<le> x \<Longrightarrow> k \<le> rne x"
  using rne_mono [of "of_int k" x] by simp

lemma rne_le_int: "x \<le> of_int k \<Longrightarrow> rne x \<le> k"
  using rne_mono [of x "of_int k"] by simp

lemma floor_log2_bounds:
  assumes "x \<noteq> 0"
  shows "2 powi \<lfloor>log 2 \<bar>x\<bar>\<rfloor> \<le> \<bar>x\<bar>" and "\<bar>x\<bar> < 2 powi (\<lfloor>log 2 \<bar>x\<bar>\<rfloor> + 1)"
proof -
  have "0 < \<bar>x\<bar>" using assms by simp
  then have "2 powr real_of_int \<lfloor>log 2 \<bar>x\<bar>\<rfloor> \<le> \<bar>x\<bar> \<and> \<bar>x\<bar> < 2 powr real_of_int (\<lfloor>log 2 \<bar>x\<bar>\<rfloor> + 1)"
    using floor_log_eq_powr_iff [of "\<bar>x\<bar>" 2 "\<lfloor>log 2 \<bar>x\<bar>\<rfloor>"] by simp
  moreover have "2 powr real_of_int k = 2 powi k" for k
    by (simp add: powr_real_of_int')
  ultimately show "2 powi \<lfloor>log 2 \<bar>x\<bar>\<rfloor> \<le> \<bar>x\<bar>" and "\<bar>x\<bar> < 2 powi (\<lfloor>log 2 \<bar>x\<bar>\<rfloor> + 1)"
    by (simp_all only:)
qed

lemma floor_log2_less: "x \<noteq> 0 \<Longrightarrow> \<bar>x\<bar> < 2 powi k \<Longrightarrow> \<lfloor>log 2 \<bar>x\<bar>\<rfloor> < k"
proof (rule ccontr)
  assume x: "x \<noteq> 0" and b: "\<bar>x\<bar> < 2 powi k" and n: "\<not> \<lfloor>log 2 \<bar>x\<bar>\<rfloor> < k"
  then have "(2::real) powi k \<le> 2 powi \<lfloor>log 2 \<bar>x\<bar>\<rfloor>" by (intro power_int_increasing) simp_all
  with floor_log2_bounds(1) [OF x] b show False by linarith
qed

lemma floor_log2_ge: "2 powi k \<le> \<bar>x\<bar> \<Longrightarrow> k \<le> \<lfloor>log 2 \<bar>x\<bar>\<rfloor>"
proof (rule ccontr)
  assume b: "2 powi k \<le> \<bar>x\<bar>" and n: "\<not> k \<le> \<lfloor>log 2 \<bar>x\<bar>\<rfloor>"
  have pos: "(0::real) < 2 powi k" by (simp add: zero_less_power_int)
  have x: "x \<noteq> 0"
  proof
    assume "x = 0"
    with b have "(2::real) powi k \<le> 0" by simp
    with pos show False by linarith
  qed
  from n have "(2::real) powi (\<lfloor>log 2 \<bar>x\<bar>\<rfloor> + 1) \<le> 2 powi k" by (intro power_int_increasing) simp_all
  with floor_log2_bounds(2) [OF x] b show False by linarith
qed

lemma expo_ge: "emin \<le> expo p emin x"
  by (simp add: expo_def)

lemma expo_minus [simp]: "expo p emin (- x) = expo p emin x"
  by (simp add: expo_def)

lemma expo_upper: "\<bar>x\<bar> < 2 powi (expo p emin x + int p)"
proof (cases "x = 0")
  case True
  then show ?thesis by (simp add: zero_less_power_int)
next
  case False
  have "\<lfloor>log 2 \<bar>x\<bar>\<rfloor> + 1 \<le> expo p emin x + int p" using False by (simp add: expo_def)
  then have "(2::real) powi (\<lfloor>log 2 \<bar>x\<bar>\<rfloor> + 1) \<le> 2 powi (expo p emin x + int p)"
    by (intro power_int_increasing) simp_all
  with floor_log2_bounds(2) [OF False] show ?thesis by linarith
qed

lemma expo_lower: "emin < expo p emin x \<Longrightarrow> 2 powi (expo p emin x + int p - 1) \<le> \<bar>x\<bar>"
proof -
  assume a: "emin < expo p emin x"
  then have x: "x \<noteq> 0" by (auto simp: expo_def)
  with a have "expo p emin x = \<lfloor>log 2 \<bar>x\<bar>\<rfloor> - int p + 1" by (simp add: expo_def max_def split: if_splits)
  then have "expo p emin x + int p - 1 = \<lfloor>log 2 \<bar>x\<bar>\<rfloor>" by simp
  then show ?thesis using floor_log2_bounds(1) [OF x] by simp
qed

lemma expo_le: "\<bar>x\<bar> < 2 powi (e + int p) \<Longrightarrow> emin \<le> e \<Longrightarrow> expo p emin x \<le> e"
proof (cases "x = 0")
  case True
  assume "emin \<le> e"
  with True show ?thesis by (simp add: expo_def)
next
  case False
  assume "\<bar>x\<bar> < 2 powi (e + int p)" "emin \<le> e"
  with floor_log2_less [OF False, of "e + int p"] False show ?thesis by (simp add: expo_def)
qed

lemma expo_mono: "\<bar>x\<bar> \<le> \<bar>y\<bar> \<Longrightarrow> expo p emin x \<le> expo p emin y"
proof -
  assume le: "\<bar>x\<bar> \<le> \<bar>y\<bar>"
  have "\<bar>x\<bar> < 2 powi (expo p emin y + int p)" using le expo_upper [of y p emin] by linarith
  then show ?thesis by (rule expo_le) (rule expo_ge)
qed


lemma powi_split: "g \<le> e \<Longrightarrow> (2::real) powi e = 2 ^ nat (e - g) * 2 powi g"
proof -
  assume "g \<le> e"
  then have "e = int (nat (e - g)) + g" by simp
  then have "(2::real) powi e = 2 powi (int (nat (e - g)) + g)" by simp
  also have "\<dots> = 2 powi int (nat (e - g)) * 2 powi g" by (rule power_int_add) simp
  finally show ?thesis by (simp only: power_int_of_nat)
qed

lemma powi_pos [simp]: "(0::real) < 2 powi e"
  by (simp add: zero_less_power_int)

lemma round_real_ge_grid:
  assumes "expo p emin x \<le> g" and "of_int k * 2 powi g \<le> x"
  shows "of_int k * 2 powi g \<le> round_real p emin x"
proof -
  let ?e = "expo p emin x"
  have s: "(2::real) powi g = 2 ^ nat (g - ?e) * 2 powi ?e" using assms(1) by (rule powi_split)
  have "of_int (k * 2 ^ nat (g - ?e)) * 2 powi ?e \<le> x" using assms(2) s by (simp add: mult.assoc)
  then have "of_int (k * 2 ^ nat (g - ?e)) \<le> x / 2 powi ?e" by (simp add: pos_le_divide_eq)
  then have "k * 2 ^ nat (g - ?e) \<le> rne (x / 2 powi ?e)" by (rule rne_ge_int)
  then have "(of_int (k * 2 ^ nat (g - ?e)) :: real) \<le> of_int (rne (x / 2 powi ?e))"
    by (simp only: of_int_le_iff)
  then have "of_int (k * 2 ^ nat (g - ?e)) * 2 powi ?e \<le> (of_int (rne (x / 2 powi ?e)) :: real) * 2 powi ?e"
    by (rule mult_right_mono) simp
  then show ?thesis using s by (simp add: round_real_def mult.assoc)
qed

lemma round_real_le_grid:
  assumes "expo p emin x \<le> g" and "x \<le> of_int k * 2 powi g"
  shows "round_real p emin x \<le> of_int k * 2 powi g"
proof -
  let ?e = "expo p emin x"
  have s: "(2::real) powi g = 2 ^ nat (g - ?e) * 2 powi ?e" using assms(1) by (rule powi_split)
  have "x \<le> of_int (k * 2 ^ nat (g - ?e)) * 2 powi ?e" using assms(2) s by (simp add: mult.assoc)
  then have "x / 2 powi ?e \<le> of_int (k * 2 ^ nat (g - ?e))" by (simp add: pos_divide_le_eq)
  then have "rne (x / 2 powi ?e) \<le> k * 2 ^ nat (g - ?e)" by (rule rne_le_int)
  then have "(of_int (rne (x / 2 powi ?e)) :: real) \<le> of_int (k * 2 ^ nat (g - ?e))"
    by (simp only: of_int_le_iff)
  then have "of_int (rne (x / 2 powi ?e)) * 2 powi ?e \<le> (of_int (k * 2 ^ nat (g - ?e)) :: real) * 2 powi ?e"
    by (rule mult_right_mono) simp
  then show ?thesis using s by (simp add: round_real_def mult.assoc)
qed

lemma round_real_on_grid:
  assumes "expo p emin x \<le> g" and "x = of_int k * 2 powi g"
  shows "round_real p emin x = x"
  using round_real_ge_grid [OF assms(1), of k] round_real_le_grid [OF assms(1), of k] assms(2)
  by simp

lemma round_real_exact:
  assumes "x = of_int m * 2 powi e" and "\<bar>m\<bar> < 2 ^ p" and "emin \<le> e"
  shows "round_real p emin x = x"
proof -
  have "\<bar>x\<bar> = of_int \<bar>m\<bar> * 2 powi e" using assms(1) by (simp add: abs_mult)
  also have "\<dots> < 2 ^ p * 2 powi e"
  proof (rule mult_strict_right_mono)
    have "(of_int \<bar>m\<bar> :: real) < of_int (2 ^ p)" using assms(2) by (simp only: of_int_less_iff)
    then show "(of_int \<bar>m\<bar> :: real) < 2 ^ p" by simp
  qed simp
  also have "\<dots> = 2 powi (e + int p)"
    by (simp add: power_int_add power_int_of_nat)
  finally have "expo p emin x \<le> e" using assms(3) by (rule expo_le)
  then show ?thesis using assms(1) by (rule round_real_on_grid)
qed

lemma round_real_0 [simp]: "round_real p emin 0 = 0"
  by (simp add: round_real_def)

lemma round_real_minus: "round_real p emin (- x) = - round_real p emin x"
  by (simp add: round_real_def rne_minus)

lemma round_real_nonneg: "0 \<le> x \<Longrightarrow> 0 \<le> round_real p emin x"
  using round_real_ge_grid [of p emin x "expo p emin x" 0] by simp

lemma round_real_nonpos: "x \<le> 0 \<Longrightarrow> round_real p emin x \<le> 0"
  using round_real_le_grid [of p emin x "expo p emin x" 0] by simp

lemma round_real_mono_nonneg:
  assumes p: "0 < p" and "0 \<le> x" and "x \<le> y"
  shows "round_real p emin x \<le> round_real p emin y"
proof -
  let ?ex = "expo p emin x" and ?ey = "expo p emin y"
  have le: "?ex \<le> ?ey" using assms by (intro expo_mono) simp
  show ?thesis
  proof (cases "?ex = ?ey")
    case True
    have "x / 2 powi ?ey \<le> y / 2 powi ?ey" using assms(3) by (simp add: divide_right_mono)
    then have "rne (x / 2 powi ?ey) \<le> rne (y / 2 powi ?ey)" by (rule rne_mono)
    then have "(of_int (rne (x / 2 powi ?ey)) :: real) \<le> of_int (rne (y / 2 powi ?ey))"
      by (simp only: of_int_le_iff)
    then have "of_int (rne (x / 2 powi ?ey)) * 2 powi ?ey \<le> (of_int (rne (y / 2 powi ?ey)) :: real) * 2 powi ?ey"
      by (rule mult_right_mono) simp
    then show ?thesis using True by (simp add: round_real_def)
  next
    case False
    with le have lt: "?ex < ?ey" by simp
    let ?g = "?ey + int p - 1"
    have "emin < ?ey" using lt expo_ge [of emin p x] by linarith
    then have "2 powi ?g \<le> \<bar>y\<bar>" by (rule expo_lower)
    then have yb: "of_int 1 * 2 powi ?g \<le> y" using assms by simp
    have "\<bar>x\<bar> < 2 powi (?ex + int p)" by (rule expo_upper)
    also have "(2::real) powi (?ex + int p) \<le> 2 powi ?g" using lt by (intro power_int_increasing) simp_all
    finally have xb: "x \<le> of_int 1 * 2 powi ?g" by simp
    have "round_real p emin x \<le> of_int 1 * 2 powi ?g"
      by (rule round_real_le_grid [OF _ xb]) (use lt p in simp)
    moreover have "of_int 1 * 2 powi ?g \<le> round_real p emin y"
      by (rule round_real_ge_grid [OF _ yb]) (use p in simp)
    ultimately show ?thesis by linarith
  qed
qed

lemma round_real_mono:
  assumes p: "0 < p" and le: "x \<le> y"
  shows "round_real p emin x \<le> round_real p emin y"
proof -
  consider "0 \<le> x" | "y \<le> 0" | "x < 0" "0 < y" by linarith
  then show ?thesis
  proof cases
    case 1
    then show ?thesis using p le by (intro round_real_mono_nonneg)
  next
    case 2
    then have "round_real p emin (- y) \<le> round_real p emin (- x)"
      using p le by (intro round_real_mono_nonneg) simp_all
    then show ?thesis by (simp add: round_real_minus)
  next
    case 3
    then show ?thesis
      using round_real_nonpos [of x p emin] round_real_nonneg [of y p emin] by linarith
  qed
qed

lemma round_real_grid:
  assumes "x = of_int k * 2 powi g"
  shows "\<exists>k'. round_real p emin x = of_int k' * 2 powi g"
proof (cases "expo p emin x \<le> g")
  case True
  then have "round_real p emin x = x" using assms by (rule round_real_on_grid)
  then show ?thesis using assms by blast
next
  case False
  let ?e = "expo p emin x"
  have "(2::real) powi ?e = 2 ^ nat (?e - g) * 2 powi g" by (rule powi_split) (use False in simp)
  then have "round_real p emin x = of_int (rne (x / 2 powi ?e) * 2 ^ nat (?e - g)) * 2 powi g"
    by (simp add: round_real_def mult.assoc)
  then show ?thesis by blast
qed

section \<open>Statistics in exact arithmetic: the loops as sums\<close>

lemma average_loop_exact: "average_loop exact (Fin a) (map Fin S) = Fin (a + sum_list S)"
  by (induction S arbitrary: a) (simp_all add: exact_def algebra_simps)

lemma calculateAverage_exact:
  "S \<noteq> [] \<Longrightarrow> calculateAverage exact (map Fin S) = Fin (sum_list S / real (length S))"
  by (simp add: calculateAverage_def average_loop_exact) (simp add: exact_def)

lemma stddev_loop_exact:
  "stddev_loop exact (Fin m) (Fin a) (map Fin S) = Fin (a + (\<Sum>v\<leftarrow>S. (v - m)\<^sup>2))"
  by (induction S arbitrary: a) (simp_all add: exact_def fsub_def power2_eq_square algebra_simps)

lemma calculateStdDev_exact:
  assumes "S \<noteq> []"
  shows "calculateStdDev exact (map Fin S) =
           Fin (sqrt ((\<Sum>v\<leftarrow>S. (v - sum_list S / real (length S))\<^sup>2) / real (length S)))"
proof -
  have "0 \<le> (\<Sum>v\<leftarrow>S. (v - sum_list S / real (length S))\<^sup>2) / real (length S)"
    by (intro divide_nonneg_nonneg sum_list_nonneg) auto
  then show ?thesis using assms
    by (simp add: calculateStdDev_def calculateAverage_exact stddev_loop_exact)
       (simp add: exact_def)
qed

lemma min_element_loop_Fin:
  "min_element_loop (Fin s) (map Fin S) = Fin (Min (insert s (set S)))"
proof (induction S arbitrary: s)
  case Nil
  show ?case by (simp add: min_element_loop.simps)
next
  case (Cons v S)
  have m: "(if fless (Fin v) (Fin s) then Fin v else Fin s) = Fin (min s v)"
    by (simp add: min_def)
  have "Min (insert (min s v) (set S)) = Min (insert s (insert v (set S)))"
  proof (cases "set S = {}")
    case True
    then show ?thesis by simp
  next
    case False
    then show ?thesis by (simp add: min.assoc)
  qed
  then show ?case by (simp only: list.map min_element_loop.simps m Cons.IH list.set)
qed

lemma min_element_Fin: "S \<noteq> [] \<Longrightarrow> min_element (map Fin S) = Some (Fin (Min (set S)))"
  by (cases S) (simp_all add: min_element_loop_Fin)

section \<open>Rounding in \<open>binary64\<close>\<close>

declare power_int_numeral [simp del] power_int_numeral_neg_numeral [simp del]

lemma round_real_ge_rep:
  "0 < p \<Longrightarrow> round_real p emin c = c \<Longrightarrow> c \<le> x \<Longrightarrow> c \<le> round_real p emin x"
  using round_real_mono [of p c x emin] by simp

lemma round_real_le_rep:
  "0 < p \<Longrightarrow> round_real p emin c = c \<Longrightarrow> x \<le> c \<Longrightarrow> round_real p emin x \<le> c"
  using round_real_mono [of p x c emin] by simp

lemma round_real_abs_le:
  assumes "0 < p" and "round_real p emin c = c" and "\<bar>x\<bar> \<le> c"
  shows "\<bar>round_real p emin x\<bar> \<le> c"
proof -
  have "round_real p emin x \<le> c" using assms by (intro round_real_le_rep) simp_all
  moreover have "round_real p emin (- c) = - c" using assms(2) by (simp add: round_real_minus)
  then have "- c \<le> round_real p emin x" using assms by (intro round_real_ge_rep) simp_all
  ultimately show ?thesis by simp
qed

lemma round_fp_Fin_iff:
  "round_fp p emin emax x = Fin y \<longleftrightarrow> y = round_real p emin x \<and> \<bar>y\<bar> < 2 powi emax"
  by (auto simp: round_fp_def Let_def)

lemma round_fp_fin:
  assumes "0 < p" and "round_real p emin c = c" and "c < 2 powi emax" and "\<bar>x\<bar> \<le> c"
  shows "round_fp p emin emax x = Fin (round_real p emin x)"
proof -
  have "\<bar>round_real p emin x\<bar> \<le> c" using assms(1,2,4) by (rule round_real_abs_le)
  then show ?thesis using assms(3) by (simp add: round_fp_Fin_iff)
qed

lemma round64_exact:
  "\<bar>m\<bar> < 2 ^ 53 \<Longrightarrow> - 1074 \<le> e \<Longrightarrow> round64 (of_int m * 2 powi e) = of_int m * 2 powi e"
  unfolding round64_def by (rule round_real_exact [OF refl])

lemma round64_nat:
  "k < 2 ^ 53 \<Longrightarrow> - 1074 \<le> e \<Longrightarrow> round64 (of_nat k * 2 powi e) = of_nat k * 2 powi e"
  using round64_exact [of "int k" e] by simp

lemma round64_pow: "- 1074 \<le> e \<Longrightarrow> round64 (2 powi e) = 2 powi e"
  using round64_exact [of 1 e] by simp

lemma round64_0 [simp]: "round64 0 = 0"
  by (simp add: round64_def)

lemma round64_mono: "x \<le> y \<Longrightarrow> round64 x \<le> round64 y"
  unfolding round64_def by (rule round_real_mono) simp

lemma round64_ge: "round64 c = c \<Longrightarrow> c \<le> x \<Longrightarrow> c \<le> round64 x"
  using round64_mono [of c x] by simp

lemma round64_le: "round64 c = c \<Longrightarrow> x \<le> c \<Longrightarrow> round64 x \<le> c"
  using round64_mono [of x c] by simp

lemma round64_nonneg: "0 \<le> x \<Longrightarrow> 0 \<le> round64 x"
  using round64_ge [of 0 x] by simp

lemma round64_minus: "round64 (- x) = - round64 x"
  by (simp add: round64_def round_real_minus)

lemma round64_abs_le: "round64 c = c \<Longrightarrow> \<bar>x\<bar> \<le> c \<Longrightarrow> \<bar>round64 x\<bar> \<le> c"
  unfolding round64_def by (rule round_real_abs_le) simp_all

lemma round64_grid:
  "x = of_int k * 2 powi g \<Longrightarrow> \<exists>k'. round64 x = of_int k' * 2 powi g"
  unfolding round64_def by (rule round_real_grid)

lemma binary64_fin: "\<bar>x\<bar> \<le> 2 powi 1023 \<Longrightarrow> binary64 x = Fin (round64 x)"
proof -
  assume a: "\<bar>x\<bar> \<le> 2 powi 1023"
  have r: "round_real 53 (- 1074) (2 powi 1023) = 2 powi 1023"
    using round64_pow [of 1023] by (simp only: round64_def)
  have "(2::real) powi 1023 < 2 powi 1024" by (rule power_int_strict_increasing) simp_all
  with r a show ?thesis unfolding binary64_def round64_def
    by (intro round_fp_fin) simp_all
qed

lemma binary64_Fin_iff: "binary64 x = Fin y \<longleftrightarrow> y = round64 x \<and> \<bar>y\<bar> < 2 powi 1024"
  by (simp add: binary64_def round64_def round_fp_Fin_iff)

lemma binary64_nat: "k < 2 ^ 53 \<Longrightarrow> binary64 (real k) = Fin (real k)"
proof -
  assume k: "k < 2 ^ 53"
  have r: "round64 (real k) = real k" using round64_nat [OF k, of 0] by simp
  have "real k < 2 ^ 53" using k by (metis of_nat_less_iff of_nat_numeral of_nat_power)
  also have "\<dots> = 2 powi 53" by (simp add: power_int_numeral)
  also have "\<dots> < 2 powi 1024" by (rule power_int_strict_increasing) simp_all
  finally show ?thesis using r by (simp add: binary64_Fin_iff)
qed

section \<open>Sums accumulated in \<open>binary64\<close>\<close>

lemma sum64_bound:
  assumes "\<forall>x\<in>set S. \<bar>x\<bar> \<le> B" and "\<bar>a\<bar> \<le> of_nat k * B"
    and "\<forall>j \<le> k + length S. round64 (of_nat j * B) = of_nat j * B"
  shows "\<bar>sum64 a S\<bar> \<le> of_nat (k + length S) * B"
  using assms
proof (induction S arbitrary: a k)
  case Nil
  then show ?case by simp
next
  case (Cons x S)
  have "\<bar>a + x\<bar> \<le> \<bar>a\<bar> + \<bar>x\<bar>" by simp
  also have "\<dots> \<le> of_nat k * B + B" using Cons.prems(1,2) by (intro add_mono) simp_all
  finally have "\<bar>a + x\<bar> \<le> of_nat (Suc k) * B" by (simp add: algebra_simps)
  moreover have "round64 (of_nat (Suc k) * B) = of_nat (Suc k) * B"
    by (rule Cons.prems(3) [rule_format]) simp
  ultimately have b: "\<bar>round64 (a + x)\<bar> \<le> of_nat (Suc k) * B" by (intro round64_abs_le)
  have "\<bar>sum64 (round64 (a + x)) S\<bar> \<le> of_nat (Suc k + length S) * B"
    by (rule Cons.IH [OF _ b]) (use Cons.prems in simp_all)
  then show ?case by simp
qed

lemma average_loop_64:
  assumes "\<forall>x\<in>set S. \<bar>x\<bar> \<le> B" and "\<bar>a\<bar> \<le> of_nat k * B"
    and "\<forall>j \<le> k + length S. round64 (of_nat j * B) = of_nat j * B"
    and "of_nat (k + length S) * B \<le> 2 powi 1023"
  shows "average_loop binary64 (Fin a) (map Fin S) = Fin (sum64 a S)"
  using assms
proof (induction S arbitrary: a k)
  case Nil
  then show ?case by simp
next
  case (Cons x S)
  have B: "0 \<le> B" using Cons.prems(1) by fastforce
  have "\<bar>a + x\<bar> \<le> \<bar>a\<bar> + \<bar>x\<bar>" by simp
  also have "\<dots> \<le> of_nat k * B + B" using Cons.prems(1,2) by (intro add_mono) simp_all
  finally have ax: "\<bar>a + x\<bar> \<le> of_nat (Suc k) * B" by (simp add: algebra_simps)
  moreover have "round64 (of_nat (Suc k) * B) = of_nat (Suc k) * B"
    by (rule Cons.prems(3) [rule_format]) simp
  ultimately have b: "\<bar>round64 (a + x)\<bar> \<le> of_nat (Suc k) * B" by (intro round64_abs_le)
  have "of_nat (Suc k) * B \<le> of_nat (k + length (x # S)) * B"
    using B by (intro mult_right_mono) simp_all
  with ax Cons.prems(4) have "\<bar>a + x\<bar> \<le> 2 powi 1023" by linarith
  then have f: "binary64 (a + x) = Fin (round64 (a + x))" by (rule binary64_fin)
  have "average_loop binary64 (Fin (round64 (a + x))) (map Fin S) = Fin (sum64 (round64 (a + x)) S)"
    by (rule Cons.IH [OF _ b]) (use Cons.prems in simp_all)
  then show ?case by (simp add: f)
qed

lemma sum64_lower:
  assumes "\<forall>x\<in>set S. c \<le> x" and "of_nat k * c \<le> a"
    and "\<forall>j \<le> k + length S. round64 (of_nat j * c) = of_nat j * c"
  shows "of_nat (k + length S) * c \<le> sum64 a S"
  using assms
proof (induction S arbitrary: a k)
  case Nil
  then show ?case by simp
next
  case (Cons x S)
  have "of_nat (Suc k) * c \<le> a + x" using Cons.prems(1,2) by (simp add: algebra_simps)
  moreover have "round64 (of_nat (Suc k) * c) = of_nat (Suc k) * c"
    by (rule Cons.prems(3) [rule_format]) simp
  ultimately have b: "of_nat (Suc k) * c \<le> round64 (a + x)" by (intro round64_ge)
  have "of_nat (Suc k + length S) * c \<le> sum64 (round64 (a + x)) S"
    by (rule Cons.IH [OF _ b]) (use Cons.prems in simp_all)
  then show ?case by simp
qed

lemma sum64_const:
  assumes "\<forall>x\<in>set S. x = c" and "a = of_nat k * c"
    and "\<forall>j \<le> k + length S. round64 (of_nat j * c) = of_nat j * c"
  shows "sum64 a S = of_nat (k + length S) * c"
  using assms
proof (induction S arbitrary: a k)
  case Nil
  then show ?case by simp
next
  case (Cons x S)
  have "a + x = of_nat (Suc k) * c" using Cons.prems(1,2) by (simp add: algebra_simps)
  moreover have "round64 (of_nat (Suc k) * c) = of_nat (Suc k) * c"
    by (rule Cons.prems(3) [rule_format]) simp
  ultimately have b: "round64 (a + x) = of_nat (Suc k) * c" by simp
  have "sum64 (round64 (a + x)) S = of_nat (Suc k + length S) * c"
    by (rule Cons.IH [OF _ b]) (use Cons.prems in simp_all)
  then show ?case by simp
qed

lemma sum64_grid:
  assumes "\<forall>x\<in>set S. \<exists>j. x = of_int j * 2 powi g" and "\<exists>j. a = of_int j * 2 powi g"
  shows "\<exists>j. sum64 a S = of_int j * 2 powi g"
  using assms
proof (induction S arbitrary: a)
  case Nil
  then show ?case by simp
next
  case (Cons x S)
  obtain i j where "a = of_int i * 2 powi g" "x = of_int j * 2 powi g" using Cons.prems by auto
  then have "a + x = of_int (i + j) * 2 powi g" by (simp add: algebra_simps)
  then have "\<exists>j. round64 (a + x) = of_int j * 2 powi g" by (rule round64_grid)
  then have "\<exists>j. sum64 (round64 (a + x)) S = of_int j * 2 powi g"
    by (rule Cons.IH [rotated]) (use Cons.prems in simp)
  then show ?case by simp
qed

lemma sum64_nonneg_ge:
  assumes "\<forall>x\<in>set S. 0 \<le> x" and "L \<le> a" and "round64 L = L"
  shows "L \<le> sum64 a S"
  using assms
proof (induction S arbitrary: a)
  case Nil
  then show ?case by simp
next
  case (Cons x S)
  have "L \<le> a + x" using Cons.prems by simp
  then have "L \<le> round64 (a + x)" using Cons.prems(3) by (intro round64_ge)
  then have "L \<le> sum64 (round64 (a + x)) S"
    by (rule Cons.IH [rotated]) (use Cons.prems in simp_all)
  then show ?case by simp
qed

lemma sum64_member_ge:
  assumes "\<forall>x\<in>set S. 0 \<le> x" and "0 \<le> a" and "round64 L = L" and "v \<in> set S" and "L \<le> v"
  shows "L \<le> sum64 a S"
  using assms
proof (induction S arbitrary: a)
  case Nil
  then show ?case by simp
next
  case (Cons x S)
  have nn: "0 \<le> round64 (a + x)" using Cons.prems(1,2) by (intro round64_nonneg) simp
  show ?case
  proof (cases "L \<le> x")
    case True
    then have "L \<le> a + x" using Cons.prems(2) by simp
    then have "L \<le> round64 (a + x)" using Cons.prems(3) by (intro round64_ge)
    then have "L \<le> sum64 (round64 (a + x)) S"
      by (intro sum64_nonneg_ge) (use Cons.prems in simp_all)
    then show ?thesis by simp
  next
    case False
    then have "v \<in> set S" using Cons.prems(4,5) by auto
    then have "L \<le> sum64 (round64 (a + x)) S"
      using Cons.prems nn by (intro Cons.IH) simp_all
    then show ?thesis by simp
  qed
qed

lemma stddev_as_average:
  "stddev_loop r mean acc vec =
     average_loop r acc (map (\<lambda>v. fmul r (fsub r v mean) (fsub r v mean)) vec)"
  by (induction vec arbitrary: acc) simp_all

section \<open>Statistics of \<open>float\<close> samples in \<open>binary64\<close>\<close>

lemma single_repr:
  assumes "binary32 x = Fin x"
  obtains m e where "x = of_int m * 2 powi e" and "\<bar>m\<bar> < 2 ^ 24" and "- 149 \<le> e"
    and "\<bar>x\<bar> < 2 powi 128"
proof -
  let ?e = "expo 24 (- 149) x"
  let ?m = "rne (x / 2 powi ?e)"
  from assms have r: "x = round_real 24 (- 149) x" and b: "\<bar>x\<bar> < 2 powi 128"
    by (simp_all add: binary32_def round_fp_Fin_iff)
  from r have x: "x = of_int ?m * 2 powi ?e" by (simp add: round_real_def)
  have "\<bar>x\<bar> < 2 powi (?e + int 24)" by (rule expo_upper)
  also have "\<dots> = 2 ^ 24 * 2 powi ?e" by (simp add: power_int_add power_int_numeral)
  finally have "\<bar>x\<bar> < 2 ^ 24 * 2 powi ?e" .
  moreover have "\<bar>x\<bar> = \<bar>real_of_int ?m\<bar> * 2 powi ?e" by (subst x) (simp add: abs_mult)
  ultimately have "\<bar>real_of_int ?m\<bar> * 2 powi ?e < 2 ^ 24 * 2 powi ?e" by (simp only:)
  then have "\<bar>real_of_int ?m\<bar> < 2 ^ 24" by (simp only: mult_less_cancel_right) (use powi_pos [of ?e] in linarith)
  then have "real_of_int \<bar>?m\<bar> < real_of_int (2 ^ 24)" by simp
  then have "\<bar>?m\<bar> < 2 ^ 24" by (simp only: of_int_less_iff)
  moreover have "- 149 \<le> ?e" by (rule expo_ge)
  ultimately show ?thesis using x b that by blast
qed

lemma single_bound: "binary32 x = Fin x \<Longrightarrow> \<bar>x\<bar> \<le> 2 powi 128"
  by (erule single_repr) simp

lemma single_grid: "binary32 x = Fin x \<Longrightarrow> \<exists>j. x = of_int j * 2 powi (- 149)"
proof (erule single_repr)
  fix m e assume x: "x = of_int m * 2 powi e" and e: "- 149 \<le> e"
  have "(2::real) powi e = 2 ^ nat (e - (- 149)) * 2 powi (- 149)" using e by (rule powi_split)
  then have "x = of_int (m * 2 ^ nat (e - (- 149))) * 2 powi (- 149)"
    using x by (simp only: of_int_mult of_int_power of_int_numeral mult.assoc)
  then show ?thesis by blast
qed

lemma single_mult:
  assumes "binary32 x = Fin x" and "k \<le> 2 ^ 29"
  shows "round64 (of_nat k * x) = of_nat k * x"
proof (rule single_repr [OF assms(1)])
  fix m e assume x: "x = of_int m * 2 powi e" and m: "\<bar>m\<bar> < 2 ^ 24" and e: "- 149 \<le> e"
  have "\<bar>int k * m\<bar> = int k * \<bar>m\<bar>" by (simp add: abs_mult)
  also have "\<dots> \<le> 2 ^ 29 * \<bar>m\<bar>" using assms(2) by (intro mult_right_mono) simp_all
  also have "\<dots> < 2 ^ 29 * 2 ^ 24" using m by simp
  finally have "\<bar>int k * m\<bar> < 2 ^ 53" by simp
  then have "round64 (of_int (int k * m) * 2 powi e) = of_int (int k * m) * 2 powi e"
    using e by (intro round64_exact) simp_all
  then show ?thesis using x by (simp add: mult.assoc)
qed

lemma single_round64: "binary32 x = Fin x \<Longrightarrow> round64 x = x"
  using single_mult [of x 1] by simp

lemma pow2_nat_le: "k \<le> 2 ^ 29 \<Longrightarrow> - 1074 \<le> e \<Longrightarrow> e \<le> 994 \<Longrightarrow> of_nat k * 2 powi e \<le> (2::real) powi 1023"
proof -
  assume k: "k \<le> 2 ^ 29" and e: "- 1074 \<le> e" "e \<le> 994"
  have "real k \<le> 2 ^ 29" using k by (metis of_nat_le_iff of_nat_numeral of_nat_power)
  then have "real k * 2 powi e \<le> 2 ^ 29 * 2 powi e" by (intro mult_right_mono) simp_all
  also have "\<dots> = 2 powi (29 + e)" by (simp add: power_int_add power_int_numeral)
  also have "\<dots> \<le> 2 powi 1023" using e by (intro power_int_increasing) simp_all
  finally show ?thesis .
qed

lemma rep_nat_pow:
  "k \<le> 2 ^ 29 \<Longrightarrow> - 1074 \<le> e \<Longrightarrow> round64 (of_nat k * 2 powi e) = of_nat k * 2 powi e"
proof (rule round64_nat)
  assume "k \<le> 2 ^ 29"
  also have "(2::nat) ^ 29 < 2 ^ 53" by simp
  finally show "k < 2 ^ 53" .
qed

lemma dev_fin:
  assumes "\<bar>m\<bar> \<le> 2 powi 128" and "\<bar>v\<bar> \<le> 2 powi 128"
  shows "fmul binary64 (fsub binary64 (Fin v) (Fin m)) (fsub binary64 (Fin v) (Fin m)) =
           Fin (dev64 m v)"
    and "0 \<le> dev64 m v" and "dev64 m v \<le> 2 powi 258"
proof -
  let ?d = "round64 (v - m)"
  have "\<bar>v - m\<bar> \<le> 2 powi 128 + 2 powi 128" using assms by linarith
  also have "\<dots> = 2 powi 129" by (simp add: power_int_numeral)
  finally have vm: "\<bar>v - m\<bar> \<le> 2 powi 129" .
  have le: "(2::real) powi 129 \<le> 2 powi 1023" by (rule power_int_increasing) simp_all
  have sub: "binary64 (v - m) = Fin ?d" using vm le by (intro binary64_fin) linarith
  have d: "\<bar>?d\<bar> \<le> 2 powi 129" using vm by (intro round64_abs_le round64_pow) simp_all
  have "\<bar>?d * ?d\<bar> = \<bar>?d\<bar> * \<bar>?d\<bar>" by (simp add: abs_mult)
  also have "\<dots> \<le> 2 powi 129 * 2 powi 129" using d by (intro mult_mono) simp_all
  also have "\<dots> = 2 powi 258" by (simp add: power_int_numeral)
  finally have dd: "\<bar>?d * ?d\<bar> \<le> 2 powi 258" .
  have le2: "(2::real) powi 258 \<le> 2 powi 1023" by (rule power_int_increasing) simp_all
  have mul: "binary64 (?d * ?d) = Fin (dev64 m v)"
    unfolding dev64_def using dd le2 by (intro binary64_fin) linarith
  show "fmul binary64 (fsub binary64 (Fin v) (Fin m)) (fsub binary64 (Fin v) (Fin m)) =
           Fin (dev64 m v)"
    by (simp add: fsub_def sub mul)
  show "0 \<le> dev64 m v" unfolding dev64_def by (rule round64_nonneg) simp
  have "\<bar>dev64 m v\<bar> \<le> 2 powi 258" unfolding dev64_def
    using dd by (intro round64_abs_le round64_pow) simp_all
  then show "dev64 m v \<le> 2 powi 258" by simp
qed

lemma dev64_nonneg: "0 \<le> dev64 m v"
  unfolding dev64_def by (rule round64_nonneg) simp

lemma sqrt_pow2: "sqrt (2 powi (2 * e)) = 2 powi e"
proof -
  have "(2::real) powi (2 * e) = (2 powi e)\<^sup>2"
    by (simp add: power2_eq_square flip: power_int_add)
  then show ?thesis by simp
qed

lemma stats64_values:
  assumes ne: "S \<noteq> []" and len: "length S \<le> 2 ^ 29" and fl: "\<forall>x\<in>set S. binary32 x = Fin x"
  shows "calculateAverage binary64 (map Fin S) = Fin (mean64 S)"
    and "calculateStdDev binary64 (map Fin S) = Fin (stddev64 S)"
    and "\<bar>mean64 S\<bar> \<le> 2 powi 128"
    and "0 \<le> sum64 0 (map (dev64 (mean64 S)) S)"
proof -
  let ?n = "length S"
  let ?s = "sum64 0 S"
  let ?m = "mean64 S"
  let ?T = "map (dev64 ?m) S"
  have n0: "0 < real ?n" using ne by simp
  have b1: "\<forall>x\<in>set S. \<bar>x\<bar> \<le> 2 powi 128" using fl single_bound by blast
  have rep: "\<forall>j \<le> 0 + ?n. round64 (of_nat j * 2 powi e) = of_nat j * 2 powi e" if "- 1074 \<le> e" for e
    using len that by (auto intro!: rep_nat_pow)
  have top: "of_nat (0 + ?n) * 2 powi e \<le> (2::real) powi 1023" if "- 1074 \<le> e" "e \<le> 994" for e
  proof -
    have "of_nat ?n * 2 powi e \<le> (2::real) powi 1023" using len that by (rule pow2_nat_le)
    then show ?thesis by (simp only: add_0)
  qed
  have al: "average_loop binary64 (Fin 0) (map Fin S) = Fin ?s"
    by (rule average_loop_64 [where k = 0 and B = "2 powi 128"]) (use b1 rep top in simp_all)
  have "\<bar>?s\<bar> \<le> of_nat (0 + ?n) * 2 powi 128"
    by (rule sum64_bound) (use b1 rep in simp_all)
  then have "\<bar>?s\<bar> / real ?n \<le> 2 powi 128" using n0 by (simp add: pos_divide_le_eq mult.commute)
  then have qb: "\<bar>?s / real ?n\<bar> \<le> 2 powi 128" using n0 by simp
  have le1: "(2::real) powi 128 \<le> 2 powi 1023" by (rule power_int_increasing) simp_all
  have av: "binary64 (?s / real ?n) = Fin ?m"
    unfolding mean64_def using qb le1 by (intro binary64_fin) linarith
  have "?n < 2 ^ 53" using len by (rule le_less_trans) simp
  then have nn: "binary64 (real ?n) = Fin (real ?n)" by (rule binary64_nat)
  show avg: "calculateAverage binary64 (map Fin S) = Fin ?m"
    using n0 by (simp add: calculateAverage_def al nn av)
  show mb: "\<bar>?m\<bar> \<le> 2 powi 128"
    unfolding mean64_def using qb by (intro round64_abs_le round64_pow) simp_all
  have eqmap: "map (\<lambda>v. fmul binary64 (fsub binary64 v (Fin ?m)) (fsub binary64 v (Fin ?m))) (map Fin S) =
      map Fin ?T"
    using b1 mb by (simp add: dev_fin(1))
  have tb: "\<forall>t\<in>set ?T. \<bar>t\<bar> \<le> 2 powi 258"
    using b1 mb dev_fin(2,3) by (auto simp: abs_le_iff intro: order_trans [of _ 0])
  have al2: "average_loop binary64 (Fin 0) (map Fin ?T) = Fin (sum64 0 ?T)"
    by (rule average_loop_64 [where k = 0 and B = "2 powi 258"]) (use tb rep top in simp_all)
  have s2b: "\<bar>sum64 0 ?T\<bar> \<le> of_nat (0 + length ?T) * 2 powi 258"
    by (rule sum64_bound) (use tb rep in simp_all)
  show s2n: "0 \<le> sum64 0 ?T"
    by (rule sum64_nonneg_ge) (simp_all add: dev64_nonneg)
  let ?q = "round64 (sum64 0 ?T / real ?n)"
  have "\<bar>sum64 0 ?T\<bar> / real ?n \<le> 2 powi 258"
    using s2b n0 by (simp add: pos_divide_le_eq mult.commute)
  then have q2b: "\<bar>sum64 0 ?T / real ?n\<bar> \<le> 2 powi 258" using n0 by simp
  have le2: "(2::real) powi 258 \<le> 2 powi 1023" by (rule power_int_increasing) simp_all
  have dv: "binary64 (sum64 0 ?T / real ?n) = Fin ?q"
    using q2b le2 by (intro binary64_fin) linarith
  have qn: "0 \<le> ?q" using s2n n0 by (intro round64_nonneg) simp
  have "\<bar>?q\<bar> \<le> 2 powi 258" using q2b by (intro round64_abs_le round64_pow) simp_all
  then have "sqrt ?q \<le> sqrt (2 powi (2 * 129))" by (intro real_sqrt_le_mono) simp
  then have "sqrt ?q \<le> 2 powi 129" by (simp only: sqrt_pow2)
  moreover have "(2::real) powi 129 \<le> 2 powi 1023" by (rule power_int_increasing) simp_all
  moreover have "0 \<le> sqrt ?q" using qn by simp
  ultimately have "\<bar>sqrt ?q\<bar> \<le> 2 powi 1023" by linarith
  then have sq: "binary64 (sqrt ?q) = Fin (stddev64 S)"
    unfolding stddev64_def by (rule binary64_fin)
  show "calculateStdDev binary64 (map Fin S) = Fin (stddev64 S)"
    using n0 qn
    by (simp add: calculateStdDev_def avg stddev_as_average eqmap al2 nn dv sq del: map_map)
qed

lemma mean64_ge_Min:
  assumes ne: "S \<noteq> []" and len: "length S \<le> 2 ^ 29" and fl: "\<forall>x\<in>set S. binary32 x = Fin x"
  shows "Min (set S) \<le> mean64 S"
proof -
  let ?c = "Min (set S)"
  have c: "?c \<in> set S" using ne by (intro Min_in) simp_all
  then have fc: "binary32 ?c = Fin ?c" using fl by blast
  have n0: "0 < real (length S)" using ne by simp
  have "of_nat (0 + length S) * ?c \<le> sum64 0 S"
  proof (rule sum64_lower)
    show "\<forall>x\<in>set S. ?c \<le> x" by simp
    show "of_nat 0 * ?c \<le> 0" by simp
    show "\<forall>j \<le> 0 + length S. round64 (of_nat j * ?c) = of_nat j * ?c"
      using len by (auto intro!: single_mult [OF fc])
  qed
  then have "?c \<le> sum64 0 S / real (length S)" using n0 by (simp add: pos_le_divide_eq mult.commute)
  then show ?thesis unfolding mean64_def using single_round64 [OF fc] by (intro round64_ge)
qed

lemma stddev64_nonneg:
  assumes ne: "S \<noteq> []" and len: "length S \<le> 2 ^ 29" and fl: "\<forall>x\<in>set S. binary32 x = Fin x"
  shows "0 \<le> stddev64 S"
proof -
  have "0 \<le> sum64 0 (map (dev64 (mean64 S)) S)" using assms by (rule stats64_values(4))
  then have "0 \<le> round64 (sum64 0 (map (dev64 (mean64 S)) S) / real (length S))"
    by (intro round64_nonneg) simp
  then show ?thesis unfolding stddev64_def by (intro round64_nonneg) simp
qed

lemma stddev64_equal:
  assumes ne: "S \<noteq> []" and len: "length S \<le> 2 ^ 29" and fl: "\<forall>x\<in>set S. binary32 x = Fin x"
    and eq: "\<forall>x\<in>set S. \<forall>y\<in>set S. x = y"
  shows "stddev64 S = 0"
proof -
  obtain c where c: "c \<in> set S" using ne by (cases S) auto
  then have fc: "binary32 c = Fin c" using fl by blast
  have all: "\<forall>x\<in>set S. x = c" using eq c by blast
  have n0: "real (length S) \<noteq> 0" using ne by simp
  have "sum64 0 S = of_nat (0 + length S) * c"
  proof (rule sum64_const)
    show "\<forall>x\<in>set S. x = c" by (rule all)
    show "0 = of_nat 0 * c" by simp
    show "\<forall>j \<le> 0 + length S. round64 (of_nat j * c) = of_nat j * c"
      using len by (auto intro!: single_mult [OF fc])
  qed
  then have "sum64 0 S / real (length S) = c" using n0 by simp
  then have m: "mean64 S = c" by (simp add: mean64_def single_round64 [OF fc])
  have "sum64 0 (map (dev64 c) S) = of_nat (0 + length (map (dev64 c) S)) * 0"
  proof (rule sum64_const)
    show "\<forall>x\<in>set (map (dev64 c) S). x = 0" using all by (auto simp: dev64_def)
  qed simp_all
  then show ?thesis by (simp add: stddev64_def m)
qed

lemma grid_gap:
  fixes x :: real
  assumes "x = of_int D * 2 powi g" and "x \<noteq> 0"
  shows "2 powi g \<le> \<bar>x\<bar>"
proof -
  have "D \<noteq> 0" using assms by auto
  then have "1 \<le> \<bar>D\<bar>" by simp
  then have "(1::real) \<le> of_int \<bar>D\<bar>" by (simp only: of_int_1_le_iff)
  then have "1 * 2 powi g \<le> of_int \<bar>D\<bar> * (2::real) powi g" by (rule mult_right_mono) simp
  moreover have "\<bar>x\<bar> = of_int \<bar>D\<bar> * 2 powi g" by (subst assms(1)) (simp add: abs_mult)
  ultimately show ?thesis by simp
qed

lemma round64_abs_ge:
  assumes "round64 L = L" and "L \<le> \<bar>x\<bar>"
  shows "L \<le> \<bar>round64 x\<bar>"
proof (cases "0 \<le> x")
  case True
  then have "L \<le> round64 x" using assms by (intro round64_ge) simp_all
  then show ?thesis by simp
next
  case False
  then have "L \<le> - x" using assms by simp
  then have "L \<le> round64 (- x)" using assms(1) by (intro round64_ge)
  then show ?thesis by (simp add: round64_minus)
qed

lemma mean64_gap:
  assumes ne: "S \<noteq> []" and len: "length S \<le> 2 ^ 29" and fl: "\<forall>x\<in>set S. binary32 x = Fin x"
    and v: "v \<in> set S" and neq: "v \<noteq> mean64 S"
  shows "2 powi (- 522) \<le> \<bar>v - mean64 S\<bar>"
proof -
  let ?n = "length S"
  let ?s = "sum64 0 S"
  let ?X = "?s / real ?n"
  let ?m = "mean64 S"
  let ?eq = "expo 53 (- 1074) ?X"
  have n0: "0 < real ?n" using ne by simp
  obtain j where vj: "v = of_int j * 2 powi (- 149)" using single_grid fl v by blast
  have "\<exists>i. ?s = of_int i * 2 powi (- 149)"
    by (rule sum64_grid) (use fl single_grid in auto)
  then obtain i where si: "?s = of_int i * 2 powi (- 149)" by blast
  define M where "M = rne (?X / 2 powi ?eq)"
  have mM: "?m = of_int M * 2 powi ?eq"
    by (simp add: mean64_def round64_def round_real_def M_def)
  show ?thesis
  proof (cases "- 522 \<le> ?eq")
    case True
    define g where "g = min ?eq (- 149)"
    have g: "g \<le> ?eq" "g \<le> - 149" "- 522 \<le> g" using True by (simp_all add: g_def)
    have e1: "(2::real) powi ?eq = 2 ^ nat (?eq - g) * 2 powi g" using g(1) by (rule powi_split)
    have e2: "(2::real) powi (- 149) = 2 ^ nat (- 149 - g) * 2 powi g" using g(2) by (rule powi_split)
    have "v - ?m = of_int j * (2 ^ nat (- 149 - g) * 2 powi g) - of_int M * (2 ^ nat (?eq - g) * 2 powi g)"
      using vj mM e1 e2 by (simp only:)
    also have "\<dots> = of_int (j * 2 ^ nat (- 149 - g) - M * 2 ^ nat (?eq - g)) * 2 powi g"
      by (simp add: algebra_simps)
    finally have eq: "v - ?m = of_int (j * 2 ^ nat (- 149 - g) - M * 2 ^ nat (?eq - g)) * 2 powi g" .
    have "2 powi g \<le> \<bar>v - ?m\<bar>" by (rule grid_gap [OF eq]) (use neq in simp)
    moreover have "(2::real) powi (- 522) \<le> 2 powi g" using g(3) by (intro power_int_increasing) simp_all
    ultimately show ?thesis by linarith
  next
    case False
    then have "?eq + int 53 \<le> - 470" by simp
    then have "(2::real) powi (?eq + int 53) \<le> 2 powi (- 470)" by (intro power_int_increasing) simp_all
    moreover have "\<bar>?X\<bar> < 2 powi (?eq + int 53)" by (rule expo_upper)
    ultimately have "\<bar>?X\<bar> \<le> 2 powi (- 470)" by linarith
    then have mb: "\<bar>?m\<bar> \<le> 2 powi (- 470)"
      unfolding mean64_def by (intro round64_abs_le round64_pow) simp_all
    show ?thesis
    proof (cases "v = 0")
      case False
      have "2 powi (- 149) \<le> \<bar>v\<bar>" using vj False by (rule grid_gap)
      moreover have "(2::real) powi (- 149) = 2 powi (- 150) + 2 powi (- 150)"
        by (simp add: power_int_numeral_neg_numeral)
      moreover have "(2::real) powi (- 470) \<le> 2 powi (- 150)" by (intro power_int_increasing) simp_all
      moreover have "(2::real) powi (- 522) \<le> 2 powi (- 150)" by (intro power_int_increasing) simp_all
      ultimately show ?thesis using mb by linarith
    next
      case True
      then have "?m \<noteq> 0" using neq by simp
      then have "?X \<noteq> 0" by (auto simp: mean64_def)
      then have "?s \<noteq> 0" by auto
      with si have "2 powi (- 149) \<le> \<bar>?s\<bar>" by (rule grid_gap)
      moreover have "real ?n \<le> 2 ^ 29" using len by (metis of_nat_le_iff of_nat_numeral of_nat_power)
      ultimately have "2 powi (- 149) / 2 ^ 29 \<le> \<bar>?s\<bar> / real ?n"
        using n0 by (intro frac_le) simp_all
      moreover have "(2::real) powi (- 149) / 2 ^ 29 = 2 powi (- 178)"
        by (simp add: power_int_numeral_neg_numeral)
      moreover have "\<bar>?X\<bar> = \<bar>?s\<bar> / real ?n" by simp
      ultimately have "2 powi (- 178) \<le> \<bar>?X\<bar>" by (simp only:)
      then have fl': "- 178 \<le> \<lfloor>log 2 \<bar>?X\<bar>\<rfloor>" by (rule floor_log2_ge)
      have ex: "?eq = max (- 1074) (\<lfloor>log 2 \<bar>?X\<bar>\<rfloor> - int 53 + 1)"
        using \<open>?X \<noteq> 0\<close> unfolding expo_def by (simp only: if_False)
      have "- 230 \<le> ?eq" unfolding ex using fl' by linarith
      with False show ?thesis by simp
    qed
  qed
qed

lemma stddev64_pos:
  assumes ne: "S \<noteq> []" and len: "length S \<le> 2 ^ 29" and fl: "\<forall>x\<in>set S. binary32 x = Fin x"
    and v: "v \<in> set S" and neq: "v \<noteq> mean64 S"
  shows "0 < stddev64 S"
proof -
  let ?n = "length S"
  let ?m = "mean64 S"
  let ?d = "round64 (v - ?m)"
  let ?T = "map (dev64 ?m) S"
  let ?q = "round64 (sum64 0 ?T / real ?n)"
  have n0: "0 < real ?n" using ne by simp
  have "2 powi (- 522) \<le> \<bar>v - ?m\<bar>" using assms by (rule mean64_gap)
  then have d: "2 powi (- 522) \<le> \<bar>?d\<bar>" by (intro round64_abs_ge round64_pow) simp_all
  have "(2::real) powi (- 1044) = 2 powi (- 522) * 2 powi (- 522)"
    by (simp flip: power_int_add)
  also have "\<dots> \<le> \<bar>?d\<bar> * \<bar>?d\<bar>" using d by (intro mult_mono) simp_all
  also have "\<dots> = ?d * ?d" by simp
  finally have "2 powi (- 1044) \<le> dev64 ?m v"
    unfolding dev64_def by (intro round64_ge round64_pow) simp_all
  then have low: "2 powi (- 1044) \<le> sum64 0 ?T"
    by (intro sum64_member_ge [where v = "dev64 ?m v"] round64_pow) (use v in \<open>simp_all add: dev64_nonneg\<close>)
  then have "0 \<le> sum64 0 ?T" using powi_pos [of "- 1044"] by linarith
  note low this
  moreover have "real ?n \<le> 2 ^ 29" using len by (metis of_nat_le_iff of_nat_numeral of_nat_power)
  ultimately have "2 powi (- 1044) / 2 ^ 29 \<le> sum64 0 ?T / real ?n"
    using n0 by (intro frac_le) simp_all
  moreover have "(2::real) powi (- 1044) / 2 ^ 29 = 2 powi (- 1073)"
    by (simp add: power_int_numeral_neg_numeral)
  ultimately have "2 powi (- 1073) \<le> sum64 0 ?T / real ?n" by (simp only:)
  then have "2 powi (- 1073) \<le> ?q" by (intro round64_ge round64_pow) simp_all
  moreover have "(2::real) powi (2 * (- 537)) \<le> 2 powi (- 1073)" by (intro power_int_increasing) simp_all
  ultimately have "sqrt (2 powi (2 * (- 537))) \<le> sqrt ?q" by (intro real_sqrt_le_mono) linarith
  then have "2 powi (- 537) \<le> sqrt ?q" by (simp only: sqrt_pow2)
  then have "2 powi (- 537) \<le> stddev64 S"
    unfolding stddev64_def by (intro round64_ge round64_pow) simp_all
  moreover have "(0::real) < 2 powi (- 537)" by simp
  ultimately show ?thesis by linarith
qed

section \<open>The statistics as folds, the least sample, and small values\<close>

lemma average_loop_foldl: "average_loop r acc V = foldl (fadd r) acc V"
  by (induction V arbitrary: acc) simp_all

lemma stddev_loop_foldl:
  "stddev_loop r m acc V = foldl (\<lambda>acc x. fadd r acc (fmul r (fsub r x m) (fsub r x m))) acc V"
  by (induction V arbitrary: acc) simp_all

lemma calculateAverage_mean_in: "calculateAverage r V = mean_in r V"
  by (simp add: calculateAverage_def mean_in_def average_loop_foldl)

lemma calculateStdDev_stddev_in: "calculateStdDev r V = stddev_in r V"
  by (simp add: calculateStdDev_def stddev_in_def calculateAverage_mean_in stddev_loop_foldl Let_def)

lemma round_fp_not_NaN [simp]: "round_fp p emin emax x \<noteq> NaN"
  by (simp add: round_fp_def Let_def)

lemma binary32_not_NaN [simp]: "binary32 x \<noteq> NaN"
  by (simp add: binary32_def)

lemma fle_refl: "x \<noteq> NaN \<Longrightarrow> fle x x"
  by (cases x) simp_all

lemma fle_trans: "fle x y \<Longrightarrow> fle y z \<Longrightarrow> fle x z"
  by (cases x; cases y; cases z) simp_all

lemma fless_fle: "fless x y \<Longrightarrow> fle x y"
  by (cases x; cases y) simp_all

lemma not_fless_fle: "x \<noteq> NaN \<Longrightarrow> y \<noteq> NaN \<Longrightarrow> \<not> fless x y \<Longrightarrow> fle y x"
  by (cases x; cases y) simp_all

lemma min_element_loop_least:
  assumes "s \<noteq> NaN" and "NaN \<notin> set V"
  shows "min_element_loop s V \<in> insert s (set V) \<and> fle (min_element_loop s V) s \<and>
         (\<forall>x\<in>set V. fle (min_element_loop s V) x)"
  using assms
proof (induction V arbitrary: s)
  case Nil
  then show ?case by (simp add: min_element_loop.simps fle_refl)
next
  case (Cons v V)
  let ?t = "if fless v s then v else s"
  have v: "v \<noteq> NaN" and V: "NaN \<notin> set V" using Cons.prems(2) by auto
  have t: "?t \<noteq> NaN" using v Cons.prems(1) by simp
  have ts: "fle ?t s" using Cons.prems(1) by (simp add: fless_fle fle_refl)
  have tv: "fle ?t v" using v Cons.prems(1) by (simp add: not_fless_fle fle_refl)
  note ih = Cons.IH [OF t V]
  have "fle (min_element_loop ?t V) s" using ih ts fle_trans by blast
  moreover have "fle (min_element_loop ?t V) v" using ih tv fle_trans by blast
  moreover have "min_element_loop ?t V \<in> insert s (set (v # V))" using ih by auto
  ultimately show ?case using ih by (simp add: min_element_loop.simps)
qed

lemma min_element_least:
  assumes "V \<noteq> []" and "NaN \<notin> set V"
  shows "min_element_loop (hd V) (tl V) \<in> set V \<and> (\<forall>x\<in>set V. fle (min_element_loop (hd V) (tl V)) x)"
proof -
  obtain v V' where V: "V = v # V'" using assms(1) by (cases V) auto
  have "min_element_loop v V' \<in> insert v (set V') \<and> fle (min_element_loop v V') v \<and>
         (\<forall>x\<in>set V'. fle (min_element_loop v V') x)"
    by (rule min_element_loop_least) (use assms(2) V in auto)
  then show ?thesis using V by simp
qed

lemma binary64_of_int: "\<bar>m\<bar> < 2 ^ 53 \<Longrightarrow> binary64 (of_int m) = Fin (of_int m)"
proof -
  assume m: "\<bar>m\<bar> < 2 ^ 53"
  have r: "round64 (of_int m) = of_int m" using round64_exact [OF m, of 0] by simp
  have "real_of_int \<bar>m\<bar> < real_of_int (2 ^ 53)" using m by (simp only: of_int_less_iff)
  then have "\<bar>real_of_int m\<bar> < 2 powi 53" by (simp add: power_int_numeral)
  also have "(2::real) powi 53 < 2 powi 1024" by (rule power_int_strict_increasing) simp_all
  finally show ?thesis using r by (simp add: binary64_Fin_iff)
qed

lemma binary64_small [simp]:
  "binary64 0 = Fin 0" "binary64 1 = Fin 1" "binary64 (- 1) = Fin (- 1)"
  "(numeral n :: int) < 2 ^ 53 \<Longrightarrow> binary64 (numeral n) = Fin (numeral n)"
  "(numeral n :: int) < 2 ^ 53 \<Longrightarrow> binary64 (- numeral n) = Fin (- numeral n)"
  using binary64_of_int [of 0] binary64_of_int [of 1] binary64_of_int [of "- 1"]
    binary64_of_int [of "numeral n"] binary64_of_int [of "- numeral n"]
  by simp_all

lemma binary32_Fin_iff:
  "binary32 x = Fin y \<longleftrightarrow> y = round_real 24 (- 149) x \<and> \<bar>y\<bar> < 2 powi 128"
  by (simp add: binary32_def round_fp_Fin_iff)

lemma binary32_of_int: "\<bar>m\<bar> < 2 ^ 24 \<Longrightarrow> binary32 (of_int m) = Fin (of_int m)"
proof -
  assume m: "\<bar>m\<bar> < 2 ^ 24"
  have "round_real 24 (- 149) (of_int m) = of_int m"
    by (rule round_real_exact [where m = m and e = 0]) (use m in simp_all)
  moreover have "real_of_int \<bar>m\<bar> < real_of_int (2 ^ 24)" using m by (simp only: of_int_less_iff)
  then have "\<bar>real_of_int m\<bar> < 2 powi 24" by (simp add: power_int_numeral)
  then have "\<bar>real_of_int m\<bar> < 2 powi 128"
    using power_int_strict_increasing [of 24 128 "2::real"] by simp
  ultimately show ?thesis by (simp add: binary32_Fin_iff)
qed

lemma binary32_small [simp]:
  "binary32 0 = Fin 0" "binary32 1 = Fin 1" "binary32 (- 1) = Fin (- 1)"
  "(numeral n :: int) < 2 ^ 24 \<Longrightarrow> binary32 (numeral n) = Fin (numeral n)"
  "(numeral n :: int) < 2 ^ 24 \<Longrightarrow> binary32 (- numeral n) = Fin (- numeral n)"
  using binary32_of_int [of 0] binary32_of_int [of 1] binary32_of_int [of "- 1"]
    binary32_of_int [of "numeral n"] binary32_of_int [of "- numeral n"]
  by simp_all

section \<open>The library backend on square right operands\<close>

lemma foldl_add_sum_list:
  "foldl (\<lambda>s k. s + f k) (a::real) xs = a + sum_list (map f xs)"
  by (induction xs arbitrary: a) simp_all

lemma div_bound: "(p::nat) < m * n \<Longrightarrow> p div n < m"
  by (simp add: less_mult_imp_div_less)

lemma mod_bound: "(p::nat) < m * n \<Longrightarrow> p mod n < n"
  by (cases "n = 0") simp_all

lemma uint_small: "unat (x::size_t) < 2 ^ 31 \<Longrightarrow> uint x < 2 ^ 31"
  unfolding uint_nat by (metis of_nat_less_iff of_nat_numeral of_nat_power)

lemma uint_ucast_int: "uint (ucast (x::size_t) :: c_int) = take_bit LENGTH(32) (uint x)"
  by (rule unsigned_ucast_eq)

lemma take_bit_small: "uint (x::size_t) < 2 ^ 31 \<Longrightarrow> take_bit LENGTH(32) (uint x) = uint x"
  by (rule take_bit_int_eq_self) simp_all

lemma signed_take_bit_small: "uint (x::size_t) < 2 ^ 31 \<Longrightarrow> signed_take_bit 31 (uint x) = uint x"
  by (rule signed_take_bit_int_eq_self) (simp_all add: order_trans [of _ 0])

lemma sint_c_int: "sint (w :: c_int) = signed_take_bit 31 (uint w)"
  by (simp add: sint_uint)

lemma sint_ucast_small:
  assumes "unat (x::size_t) < 2 ^ 31"
  shows "sint (ucast x :: c_int) = int (unat x)"
proof -
  have b: "uint x < 2 ^ 31" using assms by (rule uint_small)
  have "sint (ucast x :: c_int) = signed_take_bit 31 (uint (ucast x :: c_int))" by (rule sint_c_int)
  also have "\<dots> = signed_take_bit 31 (uint x)" by (simp only: uint_ucast_int take_bit_small [OF b])
  also have "\<dots> = uint x" using b by (rule signed_take_bit_small)
  finally show ?thesis by (simp only: uint_nat)
qed

lemma cblas_sgemm_small:
  fixes M N K lda ldb ldc :: size_t
  assumes "unat M < 2 ^ 31" and "unat N < 2 ^ 31" and "unat K < 2 ^ 31"
    and "unat lda < 2 ^ 31" and "unat ldb < 2 ^ 31" and "unat ldc < 2 ^ 31"
  shows "cblas_sgemm Order TransA TransB (ucast M) (ucast N) (ucast K) alpha A (ucast lda)
           B (ucast ldb) beta C (ucast ldc) =
         sgemm Order TransA TransB (unat M) (unat N) (unat K) alpha A (unat lda) B (unat ldb) beta C
           (unat ldc)"
proof -
  have s: "sint (ucast M :: c_int) = int (unat M)" "sint (ucast N :: c_int) = int (unat N)"
    "sint (ucast K :: c_int) = int (unat K)" "sint (ucast lda :: c_int) = int (unat lda)"
    "sint (ucast ldb :: c_int) = int (unat ldb)" "sint (ucast ldc :: c_int) = int (unat ldc)"
    using assms by (simp_all only: sint_ucast_small)
  show ?thesis unfolding cblas_sgemm_def s by simp
qed

lemma matmul_cblas_square:
  assumes n: "1 \<le> unat N"
    and a: "length A = unat M * unat N" and b: "length B = unat N * unat N"
    and m31: "unat M < 2 ^ 31" and n31: "unat N < 2 ^ 31"
  shows "matmul_cblas A B M N N =
     Some (map (\<lambda>p. \<Sum>k\<leftarrow>[0..<unat N]. A ! ((p div unat N) * unat N + k) *
                                            B ! ((p mod unat N) * unat N + k))
            [0..<unat M * unat N])"
proof -
  have "unat M * unat N < 2 ^ 31 * 2 ^ 31" using m31 n31 n by (intro mult_strict_mono) simp_all
  then have mn: "unat M * unat N < 2 ^ 64" by simp
  have len0: "unat (M * N) = unat M * unat N"
    using mn by (simp add: unat_word_ariths)
  have legal: "sgemm_legal CblasRowMajor CblasNoTrans CblasTrans (unat M) (unat N) (unat N)
                 (unat N) (unat N) (unat N)"
    using n by (simp add: sgemm_legal_def min_ld_def)
  have fits: "sgemm_fits CblasRowMajor CblasNoTrans CblasTrans (unat M) (unat N) (unat N)
                 (length A) (unat N) (length B) (unat N)
                 (length (replicate (unat (M * N)) (0::real))) (unat N)"
    by (simp add: sgemm_fits_def list_all_iff op_index_def a b len0 row_major_bound)
  have "map (\<lambda>p. case cell_of CblasRowMajor (unat N) p of (i, j) \<Rightarrow>
                if i < unat M \<and> j < unat N
                then 1 * (\<Sum>k\<leftarrow>[0..<unat N]. A ! op_index CblasRowMajor CblasNoTrans (unat N) i k *
                                            B ! op_index CblasRowMajor CblasTrans (unat N) k j)
                     + 0 * replicate (unat (M * N)) (0::real) ! p
                else replicate (unat (M * N)) 0 ! p) [0..<length (replicate (unat (M * N)) (0::real))] =
        map (\<lambda>p. \<Sum>k\<leftarrow>[0..<unat N]. A ! ((p div unat N) * unat N + k) *
                                            B ! ((p mod unat N) * unat N + k))
            [0..<unat M * unat N]"
    by (rule map_cong) (simp_all add: len0 cell_of_def op_index_def div_bound mod_bound)
  then show ?thesis
    using legal fits
    by (simp add: matmul_cblas_def cblas_sgemm_small [OF m31 n31 n31 n31 n31 n31] sgemm_def)
qed

lemma transpose_rm_nth:
  "r < cols \<Longrightarrow> c < rows \<Longrightarrow> transpose_rm rows cols B ! (r * rows + c) = B ! (c * cols + r)"
proof -
  assume r: "r < cols" and c: "c < rows"
  have "r * rows + c < cols * rows" using r c by (rule row_major_bound)
  then show ?thesis using c by (simp add: transpose_rm_def mult.commute)
qed

lemma dot_ascending_transposed:
  assumes "j < n"
  shows "dot_ascending A (transpose_rm n n B) n n i j =
           (\<Sum>k\<leftarrow>[0..<n]. A ! (i * n + k) * (B ! (j * n + k) :: real))"
proof -
  have "map (\<lambda>k. A ! (i * n + k) * transpose_rm n n B ! (k * n + j)) [0..<n] =
        map (\<lambda>k. A ! (i * n + k) * B ! (j * n + k)) [0..<n]"
    by (rule map_cong) (simp_all add: transpose_rm_nth assms)
  then have "sum_list (map (\<lambda>k. A ! (i * n + k) * transpose_rm n n B ! (k * n + j)) [0..<n]) =
        sum_list (map (\<lambda>k. A ! (i * n + k) * B ! (j * n + k)) [0..<n])"
    by (rule arg_cong)
  then show ?thesis by (simp add: dot_ascending_def foldl_add_sum_list)
qed

section \<open>The timing loop\<close>

lemma seconds_timing_sample: "seconds t0 t1 = timing_sample t0 t1"
  by (simp add: seconds_def timing_sample_def signed_divide_int_def sgn_if)

lemma timed_call_now:
  "func A B M K N (snd (now w)) = (r, w2) \<Longrightarrow>
     timed_call func A B M K N (samples, w) =
       (samples @ [seconds (fst (now w)) (fst (now w2))], snd (now w2))"
  by (simp add: timed_call_def now_def seconds_timing_sample Let_def)

lemma benchmark_loop_funpow:
  "benchmark_loop func A B M K N R i samples w = (Inr s', w') \<Longrightarrow> unat i \<le> unat R \<Longrightarrow>
     (timed_call func A B M K N ^^ (unat R - unat i)) (samples, w) = (s', w') \<and>
     length s' = length samples + (unat R - unat i)"
proof (induction func A B M K N R i samples w rule: benchmark_loop.induct)
  case (1 func A B M K N R i samples w)
  show ?case
  proof (cases "i < R")
    case False
    then have "unat R - unat i = 0" by (simp add: word_less_nat_alt)
    with False "1.prems" show ?thesis
      by (simp add: benchmark_loop.simps [of func A B M K N R i samples w])
  next
    case True
    have inc: "unat (i + 1) = Suc (unat i)" using True by (rule unat_inc)
    have lt: "unat i < unat R" using True by (simp add: word_less_nat_alt)
    obtain r w2 where f: "func A B M K N (snd (now w)) = (r, w2)" by (cases "func A B M K N (snd (now w))")
    show ?thesis
    proof (cases r)
      case (Inl e)
      with True f "1.prems" show ?thesis
        by (simp add: benchmark_loop.simps [of func A B M K N R i samples w])
    next
      case (Inr C)
      have f': "(Inr C, w2) = func A B M K N (snd (now w))" using f Inr by simp
      have rec: "benchmark_loop func A B M K N R (i + 1)
                   (samples @ [seconds (fst (now w)) (fst (now w2))]) (snd (now w2)) = (Inr s', w')"
        using True f Inr "1.prems"(1)
        by (simp add: benchmark_loop.simps [of func A B M K N R i samples w])
      have ih: "(timed_call func A B M K N ^^ (unat R - unat (i + 1)))
                  (samples @ [seconds (fst (now w)) (fst (now w2))], snd (now w2)) = (s', w') \<and>
                length s' = length (samples @ [seconds (fst (now w)) (fst (now w2))]) + (unat R - unat (i + 1))"
        by (rule "1.IH" [OF True f' refl rec]) (use lt inc in simp)
      have step: "timed_call func A B M K N (samples, w) =
                    (samples @ [seconds (fst (now w)) (fst (now w2))], snd (now w2))"
        using f by (rule timed_call_now)
      have suc: "unat R - unat i = Suc (unat R - unat (i + 1))" using lt inc by simp
      have "(timed_call func A B M K N ^^ (unat R - unat i)) (samples, w) =
            (timed_call func A B M K N ^^ (unat R - unat (i + 1))) (timed_call func A B M K N (samples, w))"
        by (simp only: suc funpow_Suc_right o_apply)
      then show ?thesis using ih step suc by simp
    qed
  qed
qed

lemma benchmark_loop_stop:
  "\<not> i < R \<Longrightarrow> benchmark_loop func A B M K N R i samples w = (Inr samples, w)"
  by (simp add: benchmark_loop.simps [of func A B M K N R i samples w])

lemma benchmark_loop_fault:
  "i < R \<Longrightarrow> func A B M K N (snd (now w)) = (Inl e, w2) \<Longrightarrow>
     benchmark_loop func A B M K N R i samples w = (Inl e, w2)"
  by (simp add: benchmark_loop.simps [of func A B M K N R i samples w])

lemma benchmark_loop_step:
  "i < R \<Longrightarrow> func A B M K N (snd (now w)) = (Inr C, w2) \<Longrightarrow>
     benchmark_loop func A B M K N R i samples w =
       benchmark_loop func A B M K N R (i + 1)
         (samples @ [seconds (fst (now w)) (fst (now w2))]) (snd (now w2))"
  by (simp add: benchmark_loop.simps [of func A B M K N R i samples w])

lemma benchmark_loop_rule:
  assumes step: "\<And>n v C v'. n < unat R \<Longrightarrow> P n v \<Longrightarrow> func A B M K N (snd (now v)) = (Inr C, v') \<Longrightarrow>
                   P (Suc n) (snd (now v'))"
  shows "benchmark_loop func A B M K N R i samples w = (Inr s', w') \<Longrightarrow> unat i \<le> unat R \<Longrightarrow>
           P (unat i) w \<Longrightarrow> P (unat R) w'"
proof (induction "unat R - unat i" arbitrary: i samples w)
  case 0
  then have "\<not> i < R" by (simp add: word_less_nat_alt)
  with 0 show ?case by (simp add: benchmark_loop_stop)
next
  case (Suc n)
  then have lt: "i < R" by (simp add: word_less_nat_alt)
  have inc: "unat (i + 1) = Suc (unat i)" using lt by (rule unat_inc)
  obtain r w2 where f: "func A B M K N (snd (now w)) = (r, w2)"
    by (cases "func A B M K N (snd (now w))")
  show ?case
  proof (cases r)
    case (Inl e)
    with lt f Suc.prems(1) show ?thesis by (simp add: benchmark_loop_fault)
  next
    case (Inr C)
    have "P (unat (i + 1)) (snd (now w2))"
      using step [of "unat i" w C w2] lt f Inr Suc.prems(3) inc by (simp add: word_less_nat_alt)
    moreover have "benchmark_loop func A B M K N R (i + 1)
        (samples @ [seconds (fst (now w)) (fst (now w2))]) (snd (now w2)) = (Inr s', w')"
      using lt f Inr Suc.prems(1) by (simp add: benchmark_loop_step)
    moreover have "n = unat R - unat (i + 1)" "unat (i + 1) \<le> unat R"
      using Suc.hyps(2) inc lt by (simp_all add: word_less_nat_alt)
    ultimately show ?thesis using Suc.hyps(1) by blast
  qed
qed

lemma benchmark_loop_any:
  assumes step: "\<And>v r v'. P v \<Longrightarrow> func A B M K N (snd (now v)) = (r, v') \<Longrightarrow> P v' \<and> P (snd (now v'))"
  shows "benchmark_loop func A B M K N R i samples w = (r, w') \<Longrightarrow> P w \<Longrightarrow> P w'"
proof (induction "unat R - unat i" arbitrary: i samples w)
  case 0
  then have "\<not> i < R" by (simp add: word_less_nat_alt)
  with 0 show ?case by (simp add: benchmark_loop_stop)
next
  case (Suc n)
  then have lt: "i < R" by (simp add: word_less_nat_alt)
  have inc: "unat (i + 1) = Suc (unat i)" using lt by (rule unat_inc)
  obtain r2 w2 where f: "func A B M K N (snd (now w)) = (r2, w2)"
    by (cases "func A B M K N (snd (now w))")
  have P2: "P w2" "P (snd (now w2))" using step [OF Suc.prems(2) f] by simp_all
  show ?case
  proof (cases r2)
    case (Inl e)
    with lt f Suc.prems(1) P2 show ?thesis by (simp add: benchmark_loop_fault)
  next
    case (Inr C)
    have "benchmark_loop func A B M K N R (i + 1)
        (samples @ [seconds (fst (now w)) (fst (now w2))]) (snd (now w2)) = (r, w')"
      using lt f Inr Suc.prems(1) by (simp add: benchmark_loop_step)
    moreover have "n = unat R - unat (i + 1)"
      using Suc.hyps(2) inc by simp
    ultimately show ?thesis using Suc.hyps(1) P2 by blast
  qed
qed

lemma benchmark_loop_fault_kind:
  assumes step: "\<And>v e v'. func A B M K N v = (Inl e, v') \<Longrightarrow> e = Undefined"
  shows "benchmark_loop func A B M K N R i samples w = (Inl e, w') \<Longrightarrow> e = Undefined"
proof (induction "unat R - unat i" arbitrary: i samples w)
  case 0
  then have "\<not> i < R" by (simp add: word_less_nat_alt)
  with 0 show ?case by (simp add: benchmark_loop_stop)
next
  case (Suc n)
  then have lt: "i < R" by (simp add: word_less_nat_alt)
  have inc: "unat (i + 1) = Suc (unat i)" using lt by (rule unat_inc)
  obtain r2 w2 where f: "func A B M K N (snd (now w)) = (r2, w2)"
    by (cases "func A B M K N (snd (now w))")
  show ?case
  proof (cases r2)
    case (Inl e2)
    with lt f Suc.prems(1) step [of "snd (now w)" e2 w2] show ?thesis
      by (simp add: benchmark_loop_fault)
  next
    case (Inr C)
    have "benchmark_loop func A B M K N R (i + 1)
        (samples @ [seconds (fst (now w)) (fst (now w2))]) (snd (now w2)) = (Inl e, w')"
      using lt f Inr Suc.prems(1) by (simp add: benchmark_loop_step)
    moreover have "n = unat R - unat (i + 1)"
      using Suc.hyps(2) inc by simp
    ultimately show ?thesis using Suc.hyps(1) by blast
  qed
qed

lemma benchmark_loop_total:
  assumes step: "\<And>v. I v \<Longrightarrow> \<exists>C v'. func A B M K N (snd (now v)) = (Inr C, v') \<and> I (snd (now v'))"
  shows "I w \<Longrightarrow> \<exists>s' w'. benchmark_loop func A B M K N R i samples w = (Inr s', w') \<and> I w'"
proof (induction "unat R - unat i" arbitrary: i samples w)
  case 0
  then have "\<not> i < R" by (simp add: word_less_nat_alt)
  with 0 show ?case by (simp add: benchmark_loop_stop)
next
  case (Suc n)
  then have lt: "i < R" by (simp add: word_less_nat_alt)
  have inc: "unat (i + 1) = Suc (unat i)" using lt by (rule unat_inc)
  obtain C w2 where f: "func A B M K N (snd (now w)) = (Inr C, w2)" and I2: "I (snd (now w2))"
    using step [OF Suc.prems] by blast
  have "n = unat R - unat (i + 1)" using Suc.hyps(2) inc by simp
  from Suc.hyps(1) [OF this I2]
  obtain s' w' where "benchmark_loop func A B M K N R (i + 1)
        (samples @ [seconds (fst (now w)) (fst (now w2))]) (snd (now w2)) = (Inr s', w')" "I w'"
    by blast
  then show ?case using lt f by (simp add: benchmark_loop_step)
qed

lemma benchmark_unfold:
  "benchmark M K N R func w =
     (case benchmark_loop func (bench_A M K N w) (bench_B M K N w) M K N R 0 [] (bench_start M K N w) of
        (Inl e, w4) \<Rightarrow> (Inl e, w4)
      | (Inr samples, w4) \<Rightarrow>
          (case min_element samples of
             None \<Rightarrow> (Inl Undefined, w4)
           | Some smallest \<Rightarrow>
               (Inr (smallest, calculateAverage binary64 samples, calculateStdDev binary64 samples), w4)))"
  by (simp add: benchmark_def bench_A_def bench_B_def bench_start_def Let_def split: prod.split)

lemma benchmark_of_loop:
  assumes "benchmark_loop func (bench_A M K N w) (bench_B M K N w) M K N R 0 [] (bench_start M K N w) =
             (Inr samples, w')"
  shows "benchmark M K N R func w =
     (if samples = [] then (Inl Undefined, w')
      else (Inr (min_element_loop (hd samples) (tl samples), calculateAverage binary64 samples,
                 calculateStdDev binary64 samples), w'))"
  using assms by (cases samples) (simp_all add: benchmark_unfold)

lemma benchmark_of_loop_fault:
  assumes "benchmark_loop func (bench_A M K N w) (bench_B M K N w) M K N R 0 [] (bench_start M K N w) =
             (Inl e, w')"
  shows "benchmark M K N R func w = (Inl e, w')"
  using assms by (simp add: benchmark_unfold)

lemma benchmark_cases:
  obtains (fault) e w' where
      "benchmark_loop func (bench_A M K N w) (bench_B M K N w) M K N R 0 [] (bench_start M K N w) = (Inl e, w')"
      "benchmark M K N R func w = (Inl e, w')"
  | (empty) w' where
      "benchmark_loop func (bench_A M K N w) (bench_B M K N w) M K N R 0 [] (bench_start M K N w) = (Inr [], w')"
      "benchmark M K N R func w = (Inl Undefined, w')"
  | (returns) samples w' where
      "benchmark_loop func (bench_A M K N w) (bench_B M K N w) M K N R 0 [] (bench_start M K N w) = (Inr samples, w')"
      "samples \<noteq> []"
      "benchmark M K N R func w =
         (Inr (min_element_loop (hd samples) (tl samples), calculateAverage binary64 samples,
               calculateStdDev binary64 samples), w')"
proof -
  obtain r w' where l: "benchmark_loop func (bench_A M K N w) (bench_B M K N w) M K N R 0 [] (bench_start M K N w) = (r, w')"
    by (cases "benchmark_loop func (bench_A M K N w) (bench_B M K N w) M K N R 0 [] (bench_start M K N w)")
  show ?thesis
  proof (cases r)
    case (Inl e)
    with l fault benchmark_of_loop_fault show ?thesis by blast
  next
    case (Inr samples)
    show ?thesis
    proof (cases "samples = []")
      case True
      with l Inr empty benchmark_of_loop [of func M K N w R samples w'] show ?thesis by simp
    next
      case False
      with l Inr returns benchmark_of_loop [of func M K N w R samples w'] show ?thesis by simp
    qed
  qed
qed

text \<open>Equations for running the model on small inputs.\<close>

lemmas run_simps = initial_world_def now_def seconds_def make_random_matrix_def emit_def
  vec_put_def vec_at_def upt_rec Let_def
lemmas naive_run_simps = matmul_naive_call_def matmul_naive_def naive_i.simps naive_j.simps naive_k.simps

section \<open>The inputs and the samples of a benchmark\<close>

lemma bench_inputs:
  assumes "unat M * unat K < 2 ^ 64" and "unat K * unat N < 2 ^ 64"
  shows "bench_A M K N w = input_A M K w" and "bench_B M K N w = input_B M K N w"
    and "bench_start M K N w = timing_start M K N w"
proof -
  have mk: "unat (M * K) = unat M * unat K" using assms(1) by (simp add: unat_word_ariths)
  have kn: "unat (K * N) = unat K * unat N" using assms(2) by (simp add: unat_word_ariths)
  show "bench_A M K N w = input_A M K w"
    by (simp add: bench_A_def input_A_def random_values_def make_random_matrix_def mk)
  show "bench_B M K N w = input_B M K N w"
    by (simp add: bench_B_def input_B_def random_values_def make_random_matrix_def mk kn)
  show "bench_start M K N w = timing_start M K N w"
    by (simp add: bench_start_def timing_start_def make_random_matrix_def now_def mk kn add.assoc)
qed

lemma timing_sample_not_NaN [simp]: "timing_sample t0 t1 \<noteq> NaN" "NaN \<noteq> timing_sample t0 t1"
proof -
  have "fdiv binary32 (binary32 y) (Fin 1000) \<noteq> NaN" for y
    by (cases "binary32 y") simp_all
  then show "timing_sample t0 t1 \<noteq> NaN" by (simp add: timing_sample_def)
  then show "NaN \<noteq> timing_sample t0 t1" by (rule not_sym)
qed

lemma timed_call_no_NaN:
  "(timed_call func A B M K N ^^ n) (ts, w) = (samples, w') \<Longrightarrow> NaN \<notin> set ts \<Longrightarrow>
     NaN \<notin> set samples"
proof (induction n arbitrary: ts w)
  case 0
  then show ?case by simp
next
  case (Suc n)
  obtain ts1 w1 where t: "timed_call func A B M K N (ts, w) = (ts1, w1)"
    by (cases "timed_call func A B M K N (ts, w)")
  then have "NaN \<notin> set ts1" using Suc.prems(2) by (auto simp: timed_call_def Let_def)
  moreover have "(timed_call func A B M K N ^^ n) (ts1, w1) = (samples, w')"
    using Suc.prems(1) t by (simp add: funpow_swap1)
  ultimately show ?case by (rule Suc.IH [rotated])
qed

section \<open>Counting events\<close>

lemma occurrences_emit [simp]:
  "occurrences p (emit e w) = occurrences p w + (if p e then 1 else 0)"
  by (simp add: occurrences_def emit_def)

lemma occurrences_now [simp]: "occurrences p (snd (now w)) = occurrences p w"
  by (simp add: occurrences_def now_def)

lemma occurrences_bench_start [simp]: "occurrences p (bench_start M K N w) = occurrences p w"
  by (simp add: occurrences_def bench_start_def now_def make_random_matrix_def)

lemma occurrences_matmul_naive_call:
  "matmul_naive_call A B M K N v = (r, v') \<Longrightarrow>
     occurrences p v' = occurrences p v + (if p Call_matmul_naive then 1 else 0)"
  by (auto simp: matmul_naive_call_def split: option.splits)

lemma occurrences_matmul_cblas_call:
  "matmul_cblas_call A B M K N v = (r, v') \<Longrightarrow>
     occurrences p v' = occurrences p v + (if p Call_cblas_sgemm then 1 else 0)"
  by (auto simp: matmul_cblas_call_def split: option.splits)

lemma occurrences_set_matrix_data:
  "set_matrix_data h mem attr data v = (r, v') \<Longrightarrow>
     occurrences p v' = occurrences p v +
       (if r = Inr () \<and> p (Rknn_matmul_set_io_mem h mem attr) then 1 else 0)"
  by (auto simp: set_matrix_data_def rknn_matmul_set_io_mem_def occurrences_def emit_def
           split: option.splits)

lemma occurrences_read_floats:
  "read_floats mem n v = (r, v') \<Longrightarrow> v' = v"
  by (auto simp: read_floats_def split: option.splits contents.splits if_splits)

lemma occurrences_rknn_matmul_run [simp]:
  "occurrences p (rknn_matmul_run h v) = occurrences p v + (if p (Rknn_matmul_run h) then 1 else 0)"
  by (simp add: rknn_matmul_run_def occurrences_def emit_def)

lemma occurrences_first [simp]: "occurrences p (v\<lparr>first := b\<rparr>) = occurrences p v"
  by (simp add: occurrences_def)

lemma occurrences_rknn:
  assumes r: "rknn c A B M K N v = (Inr C, v')"
    and np: "\<And>h m s. \<not> p (Rknn_matmul_set_io_mem h m s)"
  shows "occurrences p v' = occurrences p v + (if p (Rknn_matmul_run (ctx c)) then 1 else 0)"
proof (cases "first v")
  case False
  with r show ?thesis
    by (auto simp: rknn_def dest!: occurrences_read_floats)
next
  case True
  obtain r1 v1 where a: "set_matrix_data (ctx c) (mem_A c) Slot_A A (v\<lparr>first := False\<rparr>) = (r1, v1)"
    by (cases "set_matrix_data (ctx c) (mem_A c) Slot_A A (v\<lparr>first := False\<rparr>)")
  obtain r2 v2 where b: "set_matrix_data (ctx c) (mem_B c) Slot_B B v1 = (r2, v2)"
    by (cases "set_matrix_data (ctx c) (mem_B c) Slot_B B v1")
  from r True a b have v': "v' = rknn_matmul_run (ctx c) v2"
    by (auto simp: rknn_def split: sum.splits dest!: occurrences_read_floats)
  have "occurrences p v2 = occurrences p v"
    using occurrences_set_matrix_data [OF a, of p] occurrences_set_matrix_data [OF b, of p] np
    by simp
  then show ?thesis using v' by simp
qed

lemma occurrences_make_matmul:
  assumes r: "make_matmul M K N v = (Inr c, v')"
    and np: "\<And>st. \<not> p (Rknn_matmul_create st)" "\<And>h m. \<not> p (Rknn_create_mem h m)"
      "\<And>h m s. \<not> p (Rknn_matmul_set_io_mem h m s)"
  shows "occurrences p v' = occurrences p v"
  using r np
  by (auto simp: make_matmul_def rknn_matmul_create_def rknn_create_mem_def
        rknn_matmul_set_io_mem_def occurrences_def emit_def Let_def split: if_splits prod.splits)

lemma benchmark_count:
  assumes b: "benchmark M K N R func w = (Inr res, w')"
    and f: "\<And>A B v C v'. func A B M K N v = (Inr C, v') \<Longrightarrow> occurrences p v' = occurrences p v + d"
  shows "occurrences p w' = occurrences p w + unat R * d"
proof -
  from b obtain samples where
      l: "benchmark_loop func (bench_A M K N w) (bench_B M K N w) M K N R 0 [] (bench_start M K N w) =
            (Inr samples, w')"
    by (cases rule: benchmark_cases [of func M K N w R]) auto
  have "occurrences p w' = occurrences p w + unat R * d"
  proof (rule benchmark_loop_rule [where P = "\<lambda>n v. occurrences p v = occurrences p w + n * d", OF _ l])
    fix n v C v'
    assume "occurrences p v = occurrences p w + n * d"
      and "func (bench_A M K N w) (bench_B M K N w) M K N (snd (now v)) = (Inr C, v')"
    then show "occurrences p (snd (now v')) = occurrences p w + Suc n * d"
      using f [of "bench_A M K N w" "bench_B M K N w" "snd (now v)" C v'] by simp
  qed simp_all
  then show ?thesis .
qed

lemma bench_all_Inr:
  assumes "bench_all M K N R w = (Inr res, w')"
  obtains r1 w1 r2 w2 c w3 r3 where
    "benchmark M K N 3 matmul_naive_call w = (Inr r1, w1)"
    "benchmark M K N R matmul_cblas_call w1 = (Inr r2, w2)"
    "rknn_setup M K N w2 = (Inr c, w3)"
    "benchmark M K N R (rknn c) w3 = (Inr r3, w')"
    "res = [r1, r2, r3]"
  using assms
  by (auto simp: bench_all_def split: prod.splits sum.splits)

lemma bench_all_count:
  assumes b: "bench_all M K N R w = (Inr res, w')"
    and np: "\<And>st. \<not> p (Rknn_matmul_create st)" "\<And>h m. \<not> p (Rknn_create_mem h m)"
      "\<And>h m s. \<not> p (Rknn_matmul_set_io_mem h m s)"
    and run: "\<And>h. p (Rknn_matmul_run h) = pr"
  shows "occurrences p w' =
           occurrences p w + 3 * (if p Call_matmul_naive then 1 else 0) +
           unat R * (if p Call_cblas_sgemm then 1 else 0) + unat R * (if pr then 1 else 0)"
proof -
  from b obtain r1 w1 r2 w2 c w3 r3 where
    1: "benchmark M K N 3 matmul_naive_call w = (Inr r1, w1)" and
    2: "benchmark M K N R matmul_cblas_call w1 = (Inr r2, w2)" and
    3: "rknn_setup M K N w2 = (Inr c, w3)" and
    4: "benchmark M K N R (rknn c) w3 = (Inr r3, w')"
    by (rule bench_all_Inr)
  have "occurrences p w1 = occurrences p w + unat (3 :: size_t) * (if p Call_matmul_naive then 1 else 0)"
    using 1 by (rule benchmark_count) (rule occurrences_matmul_naive_call)
  moreover have "occurrences p w2 = occurrences p w1 + unat R * (if p Call_cblas_sgemm then 1 else 0)"
    using 2 by (rule benchmark_count) (rule occurrences_matmul_cblas_call)
  moreover have "occurrences p w3 = occurrences p w2"
    using 3 np unfolding rknn_setup_def by (rule occurrences_make_matmul)
  moreover have "occurrences p w' = occurrences p w3 + unat R * (if pr then 1 else 0)"
    using 4 by (rule benchmark_count) (simp add: occurrences_rknn np run)
  ultimately show ?thesis by simp
qed

lemmas bench_run_simps = bench_all_def benchmark_def benchmark_loop.simps
  matmul_cblas_call_def rknn_setup_def rknn_def
  read_floats_def make_matmul_def rknn_matmul_create_def rknn_create_mem_def rknn_matmul_set_io_mem_def
  rknn_matmul_run_def device_write_def set_matrix_data_def set_matrix_loop.simps
  matmul_cblas_def cblas_sgemm_def sgemm_def sgemm_legal_def sgemm_fits_def min_ld_def op_index_def
  cell_of_def

section \<open>Faults and failed negotiations\<close>

lemma make_matmul_abort:
  "create_status w (creates w) < 0 \<Longrightarrow>
     make_matmul M K N w =
       (Inl Aborted,
        (emit (Rknn_matmul_create (create_status w (creates w))) (w\<lparr>creates := creates w + 1\<rparr>))
          \<lparr>stdout := stdout w @ [Printf ''rknn_matmul_create fail! ret=%d\<newline>'' (create_status w (creates w))]\<rparr>)"
  by (simp add: make_matmul_def rknn_matmul_create_def emit_def Let_def)

lemma make_matmul_fault:
  "make_matmul M K N w = (Inl e, w') \<Longrightarrow> e = Aborted \<and> reported_failure w w'"
  by (auto simp: make_matmul_def rknn_matmul_create_def emit_def Let_def reported_failure_def
        occurrences_def failed_negotiation_def split: if_splits prod.splits)

lemma make_matmul_ok:
  "make_matmul M K N w = (Inr c, w') \<Longrightarrow>
     occurrences failed_negotiation w' = occurrences failed_negotiation w"
  by (auto simp: make_matmul_def rknn_matmul_create_def rknn_create_mem_def
        rknn_matmul_set_io_mem_def emit_def Let_def
        occurrences_def failed_negotiation_def split: if_splits prod.splits)

lemma matmul_naive_call_fault: "matmul_naive_call A B M K N v = (Inl e, v') \<Longrightarrow> e = Undefined"
  by (auto simp: matmul_naive_call_def split: option.splits)

lemma matmul_cblas_call_fault: "matmul_cblas_call A B M K N v = (Inl e, v') \<Longrightarrow> e = Undefined"
  by (auto simp: matmul_cblas_call_def split: option.splits)

lemma set_matrix_data_fault: "set_matrix_data h mem attr data v = (Inl e, v') \<Longrightarrow> e = Undefined"
  by (auto simp: set_matrix_data_def split: option.splits)

lemma read_floats_fault: "read_floats mem n v = (Inl e, v') \<Longrightarrow> e = Undefined"
  by (auto simp: read_floats_def split: option.splits contents.splits if_splits)

lemma rknn_fault: "rknn c A B M K N v = (Inl e, v') \<Longrightarrow> e = Undefined"
  by (auto simp: rknn_def split: if_splits sum.splits prod.splits
        dest: set_matrix_data_fault read_floats_fault)

lemma occurrences_rknn_any:
  assumes r: "rknn c A B M K N v = (r, v')"
    and np: "\<And>h m s. \<not> p (Rknn_matmul_set_io_mem h m s)" "\<And>h. \<not> p (Rknn_matmul_run h)"
  shows "occurrences p v' = occurrences p v"
proof (cases "first v")
  case False
  with r np show ?thesis
    by (auto simp: rknn_def dest!: occurrences_read_floats)
next
  case True
  obtain r1 v1 where a: "set_matrix_data (ctx c) (mem_A c) Slot_A A (v\<lparr>first := False\<rparr>) = (r1, v1)"
    by (cases "set_matrix_data (ctx c) (mem_A c) Slot_A A (v\<lparr>first := False\<rparr>)")
  obtain r2 v2 where b: "set_matrix_data (ctx c) (mem_B c) Slot_B B v1 = (r2, v2)"
    by (cases "set_matrix_data (ctx c) (mem_B c) Slot_B B v1")
  have 1: "occurrences p v1 = occurrences p v"
    using occurrences_set_matrix_data [OF a, of p] np by simp
  have 2: "occurrences p v2 = occurrences p v1"
    using occurrences_set_matrix_data [OF b, of p] np by simp
  from r True a b have "v' = v1 \<or> v' = v2 \<or> v' = rknn_matmul_run (ctx c) v2"
    by (auto simp: rknn_def split: sum.splits dest!: occurrences_read_floats)
  then show ?thesis using 1 2 np by auto
qed

lemma benchmark_any:
  assumes b: "benchmark M K N R func w = (r, w')"
    and f: "\<And>A B v r v'. func A B M K N v = (r, v') \<Longrightarrow> occurrences p v' = occurrences p v"
  shows "occurrences p w' = occurrences p w"
proof -
  have loop: "occurrences p v' = occurrences p w"
    if "benchmark_loop func (bench_A M K N w) (bench_B M K N w) M K N R 0 [] (bench_start M K N w) = (r', v')"
    for r' v'
  proof (rule benchmark_loop_any [where P = "\<lambda>v. occurrences p v = occurrences p w", OF _ that])
    fix v r v' assume "occurrences p v = occurrences p w"
      and "func (bench_A M K N w) (bench_B M K N w) M K N (snd (now v)) = (r, v')"
    then show "occurrences p v' = occurrences p w \<and> occurrences p (snd (now v')) = occurrences p w"
      using f [of "bench_A M K N w" "bench_B M K N w" "snd (now v)" r v'] by simp
  qed simp
  show ?thesis
    by (cases rule: benchmark_cases [of func M K N w R]) (use b loop in auto)
qed

lemma benchmark_fault_kind:
  assumes b: "benchmark M K N R func w = (Inl e, w')"
    and f: "\<And>A B v e v'. func A B M K N v = (Inl e, v') \<Longrightarrow> e = Undefined"
  shows "e = Undefined"
  by (cases rule: benchmark_cases [of func M K N w R])
     (use b f benchmark_loop_fault_kind [of func "bench_A M K N w" "bench_B M K N w" M K N R 0 "[]"
        "bench_start M K N w"] in auto)

lemma failed_negotiation_simps [simp]:
  "\<not> failed_negotiation Call_matmul_naive" "\<not> failed_negotiation Call_cblas_sgemm"
  "\<not> failed_negotiation (Rknn_matmul_set_io_mem h m s)" "\<not> failed_negotiation (Rknn_matmul_run h)"
  by (simp_all add: failed_negotiation_def)

lemma bench_all_outcome:
  assumes b: "bench_all M K N R w = (r, w')"
  shows "(r = Inl Aborted \<longrightarrow> reported_failure w w') \<and>
         (r \<noteq> Inl Aborted \<longrightarrow> occurrences failed_negotiation w' = occurrences failed_negotiation w)"
proof -
  let ?f = "occurrences failed_negotiation"
  obtain r1 w1 where 1: "benchmark M K N 3 matmul_naive_call w = (r1, w1)"
    by (cases "benchmark M K N 3 matmul_naive_call w")
  have o1: "?f w1 = ?f w"
    using 1 by (rule benchmark_any) (simp add: occurrences_matmul_naive_call)
  show ?thesis
  proof (cases r1)
    case (Inl e)
    then have "e = Undefined"
      using 1 benchmark_fault_kind [of M K N 3 matmul_naive_call w e w1] matmul_naive_call_fault by blast
    with Inl 1 b o1 show ?thesis by (auto simp: bench_all_def)
  next
    case a: (Inr res1)
    obtain r2 w2 where 2: "benchmark M K N R matmul_cblas_call w1 = (r2, w2)"
      by (cases "benchmark M K N R matmul_cblas_call w1")
    have o2: "?f w2 = ?f w"
      using benchmark_any [OF 2, of failed_negotiation] o1 by (simp add: occurrences_matmul_cblas_call)
    show ?thesis
    proof (cases r2)
      case (Inl e)
      then have "e = Undefined"
        using 2 benchmark_fault_kind [of M K N R matmul_cblas_call w1 e w2] matmul_cblas_call_fault by blast
      with Inl a 1 2 b o2 show ?thesis by (auto simp: bench_all_def)
    next
      case b2: (Inr res2)
      obtain r3 w3 where 3: "rknn_setup M K N w2 = (r3, w3)"
        by (cases "rknn_setup M K N w2")
      show ?thesis
      proof (cases r3)
        case (Inl e)
        then have "e = Aborted" "reported_failure w2 w3"
          using 3 make_matmul_fault unfolding rknn_setup_def by blast+
        then have "reported_failure w w3" using o2 by (simp add: reported_failure_def)
        with Inl \<open>e = Aborted\<close> a b2 1 2 3 b show ?thesis by (auto simp: bench_all_def)
      next
        case c3: (Inr c)
        have o3: "?f w3 = ?f w"
          using 3 c3 make_matmul_ok o2 unfolding rknn_setup_def by simp
        obtain r4 w4 where 4: "benchmark M K N R (rknn c) w3 = (r4, w4)"
          by (cases "benchmark M K N R (rknn c) w3")
        have o4: "?f w4 = ?f w"
          using benchmark_any [OF 4, of failed_negotiation] o3 by (simp add: occurrences_rknn_any)
        show ?thesis
        proof (cases r4)
          case (Inl e)
          then have "e = Undefined"
            using 4 benchmark_fault_kind [of M K N R "rknn c" w3 e w4] rknn_fault by blast
          with Inl a b2 c3 1 2 3 4 b o4 show ?thesis by (auto simp: bench_all_def)
        next
          case (Inr res4)
          with a b2 c3 1 2 3 4 b o4 show ?thesis by (auto simp: bench_all_def)
        qed
      qed
    qed
  qed
qed

lemma reported_failure_trans:
  "occurrences failed_negotiation v = occurrences failed_negotiation w \<Longrightarrow> reported_failure v w' \<Longrightarrow>
     reported_failure w w'"
  by (simp add: reported_failure_def)

lemma main_loop_outcome:
  "main_loop sizes repeat w = (r, w') \<Longrightarrow>
     (r = Inl Aborted \<longrightarrow> reported_failure w w') \<and>
     (r \<noteq> Inl Aborted \<longrightarrow> occurrences failed_negotiation w' = occurrences failed_negotiation w)"
proof (induction sizes arbitrary: w)
  case Nil
  then show ?case by auto
next
  case (Cons sz sizes)
  obtain r1 w1 where 1: "bench_all sz sz sz repeat w = (r1, w1)"
    by (cases "bench_all sz sz sz repeat w")
  note o = bench_all_outcome [OF 1]
  show ?case
  proof (cases r1)
    case (Inl e)
    with 1 Cons.prems o show ?thesis by auto
  next
    case (Inr ret)
    let ?v = "w1\<lparr>stdout := stdout w1 @ [Row sz ret]\<rparr>"
    have rest: "main_loop sizes repeat ?v = (r, w')" using 1 Inr Cons.prems by simp
    have eq: "occurrences failed_negotiation ?v = occurrences failed_negotiation w"
      using o Inr by (simp add: occurrences_def)
    show ?thesis
      using Cons.IH [OF rest] eq reported_failure_trans [OF eq] by auto
  qed
qed

section \<open>A run over two sizes, and the calls never made\<close>

lemma two_sizes_run:
  "(case main_loop [1, 2] 2
          (initial_world (\<lambda>n. 1 / 2) (\<lambda>n. int n * 3000000) (\<lambda>n. 0)
             (\<lambda>n. if n = 0 then (2, 2, 4) else (8, 8, 16)) (\<lambda>r i. 7)) of
      (r, w') \<Rightarrow>
        r = Inr () \<and>
        trace w' =
          [Call_matmul_naive, Call_matmul_naive, Call_matmul_naive, Call_cblas_sgemm, Call_cblas_sgemm,
           Rknn_matmul_create 0, Rknn_create_mem 0 0, Rknn_create_mem 0 1, Rknn_create_mem 0 2,
           Rknn_matmul_set_io_mem 0 0 Slot_A, Rknn_matmul_set_io_mem 0 1 Slot_B,
           Rknn_matmul_set_io_mem 0 2 Slot_C,
           Rknn_matmul_set_io_mem 0 0 Slot_A, Rknn_matmul_set_io_mem 0 1 Slot_B,
           Rknn_matmul_run 0, Rknn_matmul_run 0,
           Call_matmul_naive, Call_matmul_naive, Call_matmul_naive, Call_cblas_sgemm, Call_cblas_sgemm,
           Rknn_matmul_create 0, Rknn_create_mem 1 3, Rknn_create_mem 1 4, Rknn_create_mem 1 5,
           Rknn_matmul_set_io_mem 1 3 Slot_A, Rknn_matmul_set_io_mem 1 4 Slot_B,
           Rknn_matmul_set_io_mem 1 5 Slot_C,
           Rknn_matmul_run 1, Rknn_matmul_run 1] \<and>
        contexts w' = [0, 1] \<and>
        map (mems w') [0, 1, 2, 3, 4, 5] =
          [Some \<lparr>mem_size = 2, virt_addr = Halves [1 / 2]\<rparr>,
           Some \<lparr>mem_size = 2, virt_addr = Halves [1 / 2]\<rparr>,
           Some \<lparr>mem_size = 4, virt_addr = Singles [7]\<rparr>,
           Some \<lparr>mem_size = 8, virt_addr = Uninitialised\<rparr>,
           Some \<lparr>mem_size = 8, virt_addr = Uninitialised\<rparr>,
           Some \<lparr>mem_size = 16, virt_addr = Singles [7, 7, 7, 7]\<rparr>])"
  by (simp add: run_simps naive_run_simps bench_run_simps)

lemma is_teardown_simps [simp]:
  "\<not> is_teardown Call_matmul_naive" "\<not> is_teardown Call_cblas_sgemm"
  "\<not> is_teardown (Rknn_matmul_create st)" "\<not> is_teardown (Rknn_create_mem h m)"
  "\<not> is_teardown (Rknn_matmul_set_io_mem h m s)" "\<not> is_teardown (Rknn_matmul_run h)"
  "is_teardown (Rknn_destroy_mem h m)" "is_teardown (Rknn_matmul_destroy h)"
  by (simp_all add: is_teardown_def)

lemma make_matmul_no_teardown:
  "make_matmul M K N w = (r, w') \<Longrightarrow> occurrences is_teardown w' = occurrences is_teardown w"
  by (auto simp: make_matmul_def rknn_matmul_create_def rknn_create_mem_def
        rknn_matmul_set_io_mem_def emit_def Let_def occurrences_def split: if_splits prod.splits)

lemma bench_all_no_teardown:
  assumes b: "bench_all M K N R w = (r, w')"
  shows "occurrences is_teardown w' = occurrences is_teardown w"
proof -
  let ?f = "occurrences is_teardown"
  obtain r1 w1 where 1: "benchmark M K N 3 matmul_naive_call w = (r1, w1)"
    by (cases "benchmark M K N 3 matmul_naive_call w")
  obtain r2 w2 where 2: "benchmark M K N R matmul_cblas_call w1 = (r2, w2)"
    by (cases "benchmark M K N R matmul_cblas_call w1")
  obtain r3 w3 where 3: "rknn_setup M K N w2 = (r3, w3)"
    by (cases "rknn_setup M K N w2")
  have o1: "?f w1 = ?f w"
    using 1 by (rule benchmark_any) (simp add: occurrences_matmul_naive_call)
  have o2: "?f w2 = ?f w"
    using benchmark_any [OF 2, of is_teardown] o1 by (simp add: occurrences_matmul_cblas_call)
  have o3: "?f w3 = ?f w"
    using 3 make_matmul_no_teardown o2 unfolding rknn_setup_def by simp
  have o4: "?f w4 = ?f w" if "benchmark M K N R (rknn c) w3 = (r4, w4)" for c r4 w4
    using benchmark_any [OF that, of is_teardown] o3 by (simp add: occurrences_rknn_any)
  show ?thesis
    using b 1 2 3 o1 o2 o3 o4
    by (auto simp: bench_all_def split: sum.splits prod.splits)
qed

lemma main_loop_no_teardown:
  "main_loop sizes repeat w = (r, w') \<Longrightarrow> occurrences is_teardown w' = occurrences is_teardown w"
proof (induction sizes arbitrary: w)
  case Nil
  then show ?case by auto
next
  case (Cons sz sizes)
  obtain r1 w1 where 1: "bench_all sz sz sz repeat w = (r1, w1)"
    by (cases "bench_all sz sz sz repeat w")
  note o = bench_all_no_teardown [OF 1]
  show ?case
  proof (cases r1)
    case (Inl e)
    with 1 Cons.prems o show ?thesis by auto
  next
    case (Inr ret)
    let ?v = "w1\<lparr>stdout := stdout w1 @ [Row sz ret]\<rparr>"
    have rest: "main_loop sizes repeat ?v = (r, w')" using 1 Inr Cons.prems by simp
    have eq: "occurrences is_teardown ?v = occurrences is_teardown w"
      using o by (simp add: occurrences_def)
    show ?thesis using Cons.IH [OF rest] eq by simp
  qed
qed

lemma main_no_teardown: "occurrences is_teardown (snd (main w)) = occurrences is_teardown w"
proof -
  let ?h = "w\<lparr>stdout := stdout w @
                  [Text ''| size | naive, (min, avg, std) | cblas, (min, avg, std) | rknn, (min, avg, std) |'',
                   Text ''| --- | --- | --- | --- |'']\<rparr>"
  obtain r1 w1 where l: "main_loop [256, 512, 1024, 2048] 20 ?h = (r1, w1)"
    by (cases "main_loop [256, 512, 1024, 2048] 20 ?h")
  have "occurrences is_teardown w1 = occurrences is_teardown ?h"
    using l by (rule main_loop_no_teardown)
  moreover have "snd (main w) = w1" using l by (simp add: main_def split: sum.splits)
  ultimately show ?thesis by (simp add: occurrences_def)
qed

lemma free_matmul_teardown:
  "occurrences is_teardown (free_matmul c w) = occurrences is_teardown w + 4"
  by (simp add: free_matmul_def rknn_matmul_destroy_def rknn_destroy_mem_def occurrences_def emit_def)

lemma set_matrix_data_first:
  "set_matrix_data h mem attr data v = (r, v') \<Longrightarrow> first v' = first v"
  by (auto simp: set_matrix_data_def rknn_matmul_set_io_mem_def emit_def split: option.splits)

lemma rknn_clears_first: "first (snd (rknn c A B M K N v)) = False"
proof (cases "first v")
  case False
  then show ?thesis
    by (auto simp: rknn_def rknn_matmul_run_def emit_def read_floats_def
          split: option.splits contents.splits)
next
  case True
  obtain r1 v1 where a: "set_matrix_data (ctx c) (mem_A c) Slot_A A (v\<lparr>first := False\<rparr>) = (r1, v1)"
    by (cases "set_matrix_data (ctx c) (mem_A c) Slot_A A (v\<lparr>first := False\<rparr>)")
  obtain r2 v2 where b: "set_matrix_data (ctx c) (mem_B c) Slot_B B v1 = (r2, v2)"
    by (cases "set_matrix_data (ctx c) (mem_B c) Slot_B B v1")
  have 1: "first v1 = False" using set_matrix_data_first [OF a] by simp
  have 2: "first v2 = False" using set_matrix_data_first [OF b] 1 by simp
  show ?thesis
    using True a b 1 2
    by (auto simp: rknn_def rknn_matmul_run_def emit_def read_floats_def
          split: option.splits contents.splits sum.splits)
qed

lemma rknn_later_call:
  "rknn c A B M K N (v\<lparr>first := False\<rparr>) =
     read_floats (mem_C c) (unat (M * N)) (rknn_matmul_run (ctx c) (v\<lparr>first := False\<rparr>))"
  by (simp add: rknn_def)

section \<open>Runs that complete\<close>

text \<open>
  With a device that serves the sizes, every step of a run returns: the two software
  benchmarks, the setup, and the benchmark of the closure.
\<close>

lemma matmul_naive_call_ok:
  assumes "unat M * unat K \<le> length A" "unat K * unat N \<le> length B" "unat M * unat N < 2 ^ 64"
  shows "\<exists>C. matmul_naive_call A B M K N v = (Inr C, emit Call_matmul_naive v)"
  using matmul_naive_total [OF assms] by (auto simp: matmul_naive_call_def)

lemma matmul_cblas_call_ok:
  assumes "1 \<le> unat N" "length A = unat M * unat N" "length B = unat N * unat N"
    "unat M < 2 ^ 31" "unat N < 2 ^ 31"
  shows "\<exists>C. matmul_cblas_call A B M N N v = (Inr C, emit Call_cblas_sgemm v)"
  using matmul_cblas_square [OF assms] by (simp add: matmul_cblas_call_def)

lemma length_bench_A: "length (bench_A M K N w) = unat (M * K)"
  by (simp add: bench_A_def make_random_matrix_def)

lemma length_bench_B: "length (bench_B M K N w) = unat (K * N)"
  by (simp add: bench_B_def make_random_matrix_def)

lemma small_square: "unat (s::size_t) < 2 ^ 31 \<Longrightarrow> unat s * unat s < 2 ^ 64"
proof -
  assume "unat s < 2 ^ 31"
  then have "unat s * unat s \<le> 2 ^ 31 * 2 ^ 31" by (intro mult_mono) simp_all
  then show ?thesis by simp
qed

lemma unat_square: "unat s < 2 ^ 31 \<Longrightarrow> unat (s * s :: size_t) = unat s * unat s"
  using small_square [of s] by (simp add: unat_word_ariths)

lemma benchmark_total:
  assumes R: "1 \<le> R"
    and start: "I (bench_start M K N w)"
    and step: "\<And>v. I v \<Longrightarrow> \<exists>C v'. func (bench_A M K N w) (bench_B M K N w) M K N (snd (now v)) = (Inr C, v') \<and>
                       I (snd (now v'))"
  shows "\<exists>res w'. benchmark M K N R func w = (Inr res, w') \<and> I w'"
proof -
  obtain s' w' where l: "benchmark_loop func (bench_A M K N w) (bench_B M K N w) M K N R 0 []
      (bench_start M K N w) = (Inr s', w')" and I: "I w'"
    using benchmark_loop_total [of I func "bench_A M K N w" "bench_B M K N w" M K N, OF step start]
    by blast
  have "length s' = unat R" using benchmark_loop_funpow [OF l] by simp
  moreover have "0 < unat R" using R by (simp add: word_le_nat_alt)
  ultimately have "s' \<noteq> []" by (metis length_greater_0_conv)
  then show ?thesis using benchmark_of_loop [OF l] I by auto
qed

lemma same_device_refl [simp]: "same_device w w"
  by (simp add: same_device_def same_plan_def)

lemma same_device_now [simp]: "same_device w (snd (now v)) = same_device w v"
  by (simp add: same_device_def same_plan_def now_def)

lemma same_device_emit [simp]: "same_device w (emit e v) = same_device w v"
  by (simp add: same_device_def same_plan_def emit_def)

lemma same_device_bench_start [simp]: "same_device w (bench_start M K N w)"
  by (simp add: same_device_def same_plan_def bench_start_def now_def make_random_matrix_def)

lemma benchmark_naive_total:
  assumes "1 \<le> R" "unat s < 2 ^ 31"
  shows "\<exists>res w'. benchmark s s s R matmul_naive_call w = (Inr res, w') \<and> same_device w w'"
proof (rule benchmark_total [OF assms(1)])
  show "same_device w (bench_start s s s w)" by simp
  fix v assume v: "same_device w v"
  have "\<exists>C. matmul_naive_call (bench_A s s s w) (bench_B s s s w) s s s (snd (now v)) =
          (Inr C, emit Call_matmul_naive (snd (now v)))"
    by (rule matmul_naive_call_ok)
       (use assms small_square [OF assms(2)] in \<open>simp_all add: length_bench_A length_bench_B unat_square\<close>)
  then show "\<exists>C v'. matmul_naive_call (bench_A s s s w) (bench_B s s s w) s s s (snd (now v)) = (Inr C, v') \<and>
               same_device w (snd (now v'))"
    using v by auto
qed

lemma benchmark_cblas_total:
  assumes "1 \<le> R" "unat s < 2 ^ 31" "1 \<le> unat s"
  shows "\<exists>res w'. benchmark s s s R matmul_cblas_call w = (Inr res, w') \<and> same_device w w'"
proof (rule benchmark_total [OF assms(1)])
  show "same_device w (bench_start s s s w)" by simp
  fix v assume v: "same_device w v"
  have "\<exists>C. matmul_cblas_call (bench_A s s s w) (bench_B s s s w) s s s (snd (now v)) =
          (Inr C, emit Call_cblas_sgemm (snd (now v)))"
    by (rule matmul_cblas_call_ok) (use assms in \<open>simp_all add: length_bench_A length_bench_B unat_square\<close>)
  then show "\<exists>C v'. matmul_cblas_call (bench_A s s s w) (bench_B s s s w) s s s (snd (now v)) = (Inr C, v') \<and>
               same_device w (snd (now v'))"
    using v by auto
qed

lemma set_matrix_loop_total:
  "unat sz \<le> length data \<Longrightarrow> \<exists>p. set_matrix_loop data sz i ptr = Some p"
proof (induction "unat sz - unat i" arbitrary: i ptr)
  case 0
  then have "\<not> i < sz" by (simp add: word_less_nat_alt)
  then show ?case by (simp add: set_matrix_loop.simps [of data sz i ptr])
next
  case (Suc n)
  then have lt: "i < sz" by (simp add: word_less_nat_alt)
  have inc: "unat (i + 1) = Suc (unat i)" using lt by (rule unat_inc)
  have at: "vec_at data i = Some (data ! unat i)"
    using lt Suc.prems by (simp add: vec_at_def word_less_nat_alt)
  have "n = unat sz - unat (i + 1)" using Suc.hyps(2) inc by simp
  from Suc.hyps(1) [OF this Suc.prems]
  obtain p where "set_matrix_loop data sz (i + 1) (ptr @ [data ! unat i]) = Some p" by blast
  then show ?case using lt at by (simp add: set_matrix_loop.simps [of data sz i ptr])
qed

lemma set_matrix_data_ok:
  assumes m: "mems v mem = Some m" and sz: "mem_size m div 2 \<le> length data"
    and len: "length data < 2 ^ 64"
  shows "\<exists>p. set_matrix_data h mem attr data v =
           (Inr (), rknn_matmul_set_io_mem h mem attr
                      (v\<lparr>mems := (mems v)(mem \<mapsto> m\<lparr>virt_addr := Halves p\<rparr>)\<rparr>))"
proof -
  have "mem_size m div 2 < 2 ^ 64" using sz len by simp
  then have "unat (of_nat (mem_size m div 2) :: size_t) = mem_size m div 2"
    by (rule unat_of_nat_size)
  then have "unat (of_nat (mem_size m div 2) :: size_t) \<le> length data" using sz by simp
  then obtain p where "set_matrix_loop data (of_nat (mem_size m div 2)) 0 [] = Some p"
    using set_matrix_loop_total by blast
  then show ?thesis using m by (auto simp: set_matrix_data_def)
qed

lemma read_after_run:
  assumes b: "bindings v (ctx c, Slot_C) = Some (mem_C c)"
    and m: "mems v (mem_C c) = Some m" and n: "n \<le> mem_size m div 4"
  shows "\<exists>C. read_floats (mem_C c) n (rknn_matmul_run (ctx c) v) = (Inr C, rknn_matmul_run (ctx c) v)"
  using assms
  by (simp add: read_floats_def rknn_matmul_run_def device_write_def emit_def)

lemma rknn_ready_after_run:
  assumes "bindings v (ctx c, Slot_C) = Some (mem_C c)"
    and "mems v (mem_C c) = Some m" and "n \<le> mem_size m div 4" and "\<not> first v"
  shows "rknn_ready c A B n (rknn_matmul_run (ctx c) v)"
  using assms
  by (simp add: rknn_ready_def rknn_matmul_run_def device_write_def emit_def)

lemma same_plan_run [simp]: "same_plan w (rknn_matmul_run h v) = same_plan w v"
  by (simp add: same_plan_def rknn_matmul_run_def emit_def)

lemma same_plan_now [simp]: "same_plan w (snd (now v)) = same_plan w v"
  by (simp add: same_plan_def now_def)

lemma first_run [simp]: "first (rknn_matmul_run h v) = first v"
  by (simp add: rknn_matmul_run_def emit_def)

lemma rknn_ok:
  assumes r: "rknn_ready c A B (unat (M * N)) v"
  shows "\<exists>C v'. rknn c A B M K N v = (Inr C, v') \<and> rknn_ready c A B (unat (M * N)) v' \<and>
           \<not> first v' \<and> same_plan v v'"
proof -
  let ?n = "unat (M * N)"
  from r obtain m where b: "bindings v (ctx c, Slot_C) = Some (mem_C c)"
    and m: "mems v (mem_C c) = Some m" and n: "?n \<le> mem_size m div 4"
    by (auto simp: rknn_ready_def)
  show ?thesis
  proof (cases "first v")
    case False
    obtain C where "read_floats (mem_C c) ?n (rknn_matmul_run (ctx c) v) =
        (Inr C, rknn_matmul_run (ctx c) v)"
      using read_after_run [OF b m n] by blast
    then have "rknn c A B M K N v = (Inr C, rknn_matmul_run (ctx c) v)"
      using False by (simp add: rknn_def)
    moreover have "rknn_ready c A B ?n (rknn_matmul_run (ctx c) v)"
      using b m n False by (rule rknn_ready_after_run)
    moreover have "same_plan v (rknn_matmul_run (ctx c) v)"
      by (simp add: same_plan_def rknn_matmul_run_def emit_def)
    ultimately show ?thesis using False by auto
  next
    case True
    with r obtain ma mb where d: "mem_A c \<noteq> mem_B c" "mem_A c \<noteq> mem_C c" "mem_B c \<noteq> mem_C c"
      and ma: "mems v (mem_A c) = Some ma" "mem_size ma div 2 \<le> length A" "length A < 2 ^ 64"
      and mb: "mems v (mem_B c) = Some mb" "mem_size mb div 2 \<le> length B" "length B < 2 ^ 64"
      by (auto simp: rknn_ready_def)
    let ?v0 = "v\<lparr>first := False\<rparr>"
    obtain pa where ua: "set_matrix_data (ctx c) (mem_A c) Slot_A A ?v0 =
        (Inr (), rknn_matmul_set_io_mem (ctx c) (mem_A c) Slot_A
                   (?v0\<lparr>mems := (mems ?v0)(mem_A c \<mapsto> ma\<lparr>virt_addr := Halves pa\<rparr>)\<rparr>))"
      using set_matrix_data_ok [of ?v0 "mem_A c" ma A "ctx c" Slot_A] ma by auto
    let ?v1 = "rknn_matmul_set_io_mem (ctx c) (mem_A c) Slot_A
                   (?v0\<lparr>mems := (mems ?v0)(mem_A c \<mapsto> ma\<lparr>virt_addr := Halves pa\<rparr>)\<rparr>)"
    have mb1: "mems ?v1 (mem_B c) = Some mb"
      using mb(1) d by (simp add: rknn_matmul_set_io_mem_def emit_def)
    obtain pb where ub: "set_matrix_data (ctx c) (mem_B c) Slot_B B ?v1 =
        (Inr (), rknn_matmul_set_io_mem (ctx c) (mem_B c) Slot_B
                   (?v1\<lparr>mems := (mems ?v1)(mem_B c \<mapsto> mb\<lparr>virt_addr := Halves pb\<rparr>)\<rparr>))"
      using set_matrix_data_ok [OF mb1 mb(2) mb(3), of "ctx c" Slot_B] by auto
    let ?v2 = "rknn_matmul_set_io_mem (ctx c) (mem_B c) Slot_B
                   (?v1\<lparr>mems := (mems ?v1)(mem_B c \<mapsto> mb\<lparr>virt_addr := Halves pb\<rparr>)\<rparr>)"
    have b2: "bindings ?v2 (ctx c, Slot_C) = Some (mem_C c)"
      using b by (simp add: rknn_matmul_set_io_mem_def emit_def)
    have m2: "mems ?v2 (mem_C c) = Some m"
      using m d by (simp add: rknn_matmul_set_io_mem_def emit_def)
    have f2: "\<not> first ?v2" by (simp add: rknn_matmul_set_io_mem_def emit_def)
    have p2: "same_plan v ?v2" by (simp add: same_plan_def rknn_matmul_set_io_mem_def emit_def)
    obtain C where "read_floats (mem_C c) ?n (rknn_matmul_run (ctx c) ?v2) =
        (Inr C, rknn_matmul_run (ctx c) ?v2)"
      using read_after_run [OF b2 m2 n] by blast
    then have "rknn c A B M K N v = (Inr C, rknn_matmul_run (ctx c) ?v2)"
      using True ua ub by (simp add: rknn_def)
    moreover have "rknn_ready c A B ?n (rknn_matmul_run (ctx c) ?v2)"
      using b2 m2 n f2 by (rule rknn_ready_after_run)
    moreover have "same_plan v (rknn_matmul_run (ctx c) ?v2)" using p2 by simp
    moreover have "\<not> first (rknn_matmul_run (ctx c) ?v2)" using f2 by simp
    ultimately show ?thesis by blast
  qed
qed

lemma make_matmul_ready:
  assumes st: "0 \<le> create_status w (creates w)"
    and ps: "plan_sizes w (creates w) = (a, b, c)"
    and n: "n \<le> c div 4"
    and up: "first w \<Longrightarrow> a div 2 \<le> length A \<and> b div 2 \<le> length B"
    and len: "length A < 2 ^ 64" "length B < 2 ^ 64"
  shows "\<exists>cx w'. make_matmul M K N w = (Inr cx, w') \<and> rknn_ready cx A B n w' \<and>
           first w' = first w \<and> create_status w' = create_status w \<and>
           plan_sizes w' = plan_sizes w \<and> creates w' = creates w + 1 \<and> stdout w' = stdout w"
  using assms
  by (auto simp: make_matmul_def rknn_matmul_create_def rknn_create_mem_def
        rknn_matmul_set_io_mem_def emit_def Let_def rknn_ready_def)

lemma rknn_ready_now [simp]: "rknn_ready c A B n (snd (now v)) = rknn_ready c A B n v"
  by (simp add: rknn_ready_def now_def)

lemma rknn_ready_bench_start [simp]:
  "rknn_ready c A B n (bench_start M K N w) = rknn_ready c A B n w"
  by (simp add: rknn_ready_def bench_start_def now_def make_random_matrix_def)

lemma same_plan_bench_start [simp]: "same_plan w (bench_start M K N w)"
  by (simp add: same_plan_def bench_start_def now_def make_random_matrix_def)

lemma same_plan_trans: "same_plan w v \<Longrightarrow> same_plan v v' \<Longrightarrow> same_plan w v'"
  by (simp add: same_plan_def)

lemma first_now [simp]: "first (snd (now v)) = first v"
  by (simp add: now_def)

lemma first_bench_start [simp]: "first (bench_start M K N w) = first w"
  by (simp add: bench_start_def now_def make_random_matrix_def)

lemma benchmark_rknn_total:
  assumes R: "1 \<le> R"
    and ready: "rknn_ready c (bench_A M K N w) (bench_B M K N w) (unat (M * N)) w"
  shows "\<exists>res w'. benchmark M K N R (rknn c) w = (Inr res, w') \<and> \<not> first w' \<and> same_plan w w'"
proof -
  let ?A = "bench_A M K N w" and ?B = "bench_B M K N w"
  let ?I = "\<lambda>v. rknn_ready c ?A ?B (unat (M * N)) v \<and> same_plan w v \<and>
                (first v \<longrightarrow> v = bench_start M K N w)"
  have "\<exists>res w'. benchmark M K N R (rknn c) w = (Inr res, w') \<and> ?I w'"
  proof (rule benchmark_total [OF R])
    show "?I (bench_start M K N w)" using ready by simp
    fix v assume v: "?I v"
    then have "rknn_ready c ?A ?B (unat (M * N)) (snd (now v))" by simp
    from rknn_ok [OF this, of K]
    obtain C v' where r: "rknn c ?A ?B M K N (snd (now v)) = (Inr C, v')"
      and i: "rknn_ready c ?A ?B (unat (M * N)) v'" "\<not> first v'" "same_plan (snd (now v)) v'"
      by blast
    have "same_plan w v'" using v i(3) by (simp add: same_plan_def now_def)
    then show "\<exists>C v'. rknn c ?A ?B M K N (snd (now v)) = (Inr C, v') \<and> ?I (snd (now v'))"
      using r i by simp
  qed
  then obtain res w' where b: "benchmark M K N R (rknn c) w = (Inr res, w')" and i: "?I w'"
    by blast
  have "w' \<noteq> bench_start M K N w"
  proof
    assume e: "w' = bench_start M K N w"
    from b obtain samples where
      l: "benchmark_loop (rknn c) ?A ?B M K N R 0 [] (bench_start M K N w) = (Inr samples, w')"
      by (cases rule: benchmark_cases [of "rknn c" M K N w R]) auto
    have "ticks w' = ticks (bench_start M K N w) + 2 * unat R"
    proof (rule benchmark_loop_rule [where P = "\<lambda>n v. ticks v = ticks (bench_start M K N w) + 2 * n", OF _ l])
      fix n v C v'
      assume "ticks v = ticks (bench_start M K N w) + 2 * n"
        and "rknn c ?A ?B M K N (snd (now v)) = (Inr C, v')"
      moreover have "ticks v' = ticks u" if "rknn c ?A ?B M K N u = (Inr C, v')" for u
        using that
        by (auto simp: rknn_def set_matrix_data_def read_floats_def rknn_matmul_run_def
              rknn_matmul_set_io_mem_def emit_def
              split: if_splits option.splits sum.splits prod.splits contents.splits)
      ultimately show "ticks (snd (now v')) = ticks (bench_start M K N w) + 2 * Suc n"
        by (simp add: now_def)
    qed simp_all
    moreover have "0 < unat R" using R by (simp add: word_le_nat_alt)
    ultimately show False using e by simp
  qed
  then show ?thesis using b i by blast
qed

lemma software_benchmarks:
  assumes s: "1 \<le> unat s" "unat s < 2 ^ 31" and R: "1 \<le> R"
  shows "\<exists>r1 w1 r2 w2. benchmark s s s 3 matmul_naive_call w = (Inr r1, w1) \<and>
           benchmark s s s R matmul_cblas_call w1 = (Inr r2, w2) \<and> same_device w w2"
proof -
  obtain r1 w1 where 1: "benchmark s s s 3 matmul_naive_call w = (Inr r1, w1)" "same_device w w1"
    using benchmark_naive_total [of 3 s w] s by auto
  obtain r2 w2 where 2: "benchmark s s s R matmul_cblas_call w1 = (Inr r2, w2)" "same_device w1 w2"
    using benchmark_cblas_total [of R s w1] s R by auto
  have "same_device w w2" using 1(2) 2(2) by (simp add: same_device_def same_plan_def)
  with 1 2 show ?thesis by blast
qed

lemma bench_all_completes:
  assumes s: "1 \<le> unat s" "unat s < 2 ^ 31" and R: "1 \<le> R"
    and ok: "plan_ok w (creates w) s (first w)"
  shows "\<exists>res w'. bench_all s s s R w = (Inr res, w') \<and> \<not> first w' \<and>
           create_status w' = create_status w \<and> plan_sizes w' = plan_sizes w \<and>
           creates w' = creates w + 1 \<and> stdout w' = stdout w"
proof -
  obtain r1 w1 r2 w2 where 1: "benchmark s s s 3 matmul_naive_call w = (Inr r1, w1)"
    and 2: "benchmark s s s R matmul_cblas_call w1 = (Inr r2, w2)" and d: "same_device w w2"
    using software_benchmarks [OF s R] by blast
  obtain a b c where ps: "plan_sizes w (creates w) = (a, b, c)" by (cases "plan_sizes w (creates w)")
  have eq: "create_status w2 = create_status w" "plan_sizes w2 = plan_sizes w" "creates w2 = creates w"
    "first w2 = first w" "stdout w2 = stdout w"
    using d by (simp_all add: same_device_def same_plan_def)
  let ?n = "unat (s * s)"
  have n: "?n = unat s * unat s" using s(2) by (rule unat_square)
  have "\<exists>cx w3. make_matmul (ucast s) (ucast s) (ucast s) w2 = (Inr cx, w3) \<and>
          rknn_ready cx (bench_A s s s w3) (bench_B s s s w3) ?n w3 \<and>
          first w3 = first w2 \<and> create_status w3 = create_status w2 \<and>
          plan_sizes w3 = plan_sizes w2 \<and> creates w3 = creates w2 + 1 \<and> stdout w3 = stdout w2"
  proof -
    have "\<exists>cx w3. make_matmul (ucast s) (ucast s) (ucast s) w2 = (Inr cx, w3) \<and>
          rknn_ready cx (replicate ?n (0::real)) (replicate ?n (0::real)) ?n w3 \<and>
          first w3 = first w2 \<and> create_status w3 = create_status w2 \<and>
          plan_sizes w3 = plan_sizes w2 \<and> creates w3 = creates w2 + 1 \<and> stdout w3 = stdout w2"
      by (rule make_matmul_ready [where a = a and b = b and c = c])
         (use ok ps eq n small_square [OF s(2)] in \<open>auto simp: plan_ok_def\<close>)
    then show ?thesis
      by (auto simp: rknn_ready_def length_bench_A length_bench_B)
  qed
  then obtain cx w3 where 3: "rknn_setup s s s w2 = (Inr cx, w3)"
    and ready: "rknn_ready cx (bench_A s s s w3) (bench_B s s s w3) ?n w3"
    and eq3: "create_status w3 = create_status w2" "plan_sizes w3 = plan_sizes w2"
      "creates w3 = creates w2 + 1" "stdout w3 = stdout w2"
    by (auto simp: rknn_setup_def)
  obtain r3 w4 where 4: "benchmark s s s R (rknn cx) w3 = (Inr r3, w4)" and f: "\<not> first w4"
    and p: "same_plan w3 w4"
    using benchmark_rknn_total [OF R ready] by blast
  have "bench_all s s s R w = (Inr [r1, r2, r3], w4)"
    using 1 2 3 4 by (simp add: bench_all_def)
  then show ?thesis using f p eq eq3 by (auto simp: same_plan_def)
qed

lemma bench_all_aborts:
  assumes s: "1 \<le> unat s" "unat s < 2 ^ 31" and R: "1 \<le> R"
    and st: "create_status w (creates w) < 0"
  shows "\<exists>w'. bench_all s s s R w = (Inl Aborted, w')"
proof -
  obtain r1 w1 r2 w2 where 1: "benchmark s s s 3 matmul_naive_call w = (Inr r1, w1)"
    and 2: "benchmark s s s R matmul_cblas_call w1 = (Inr r2, w2)" and d: "same_device w w2"
    using software_benchmarks [OF s R] by blast
  have "create_status w2 (creates w2) < 0"
    using d st by (simp add: same_device_def same_plan_def)
  then have "\<exists>w3. rknn_setup s s s w2 = (Inl Aborted, w3)"
    by (simp add: rknn_setup_def make_matmul_abort)
  then show ?thesis using 1 2 by (auto simp: bench_all_def)
qed

lemma plans_ok_cong:
  "create_status v = create_status w \<Longrightarrow> plan_sizes v = plan_sizes w \<Longrightarrow>
     plans_ok v h u sizes = plans_ok w h u sizes"
  by (induction sizes arbitrary: h u) (simp_all add: plan_ok_def)

lemma main_loop_completes:
  "plans_ok w (creates w) (first w) sizes \<Longrightarrow> 1 \<le> R \<Longrightarrow> \<exists>w'. main_loop sizes R w = (Inr (), w')"
proof (induction sizes arbitrary: w)
  case Nil
  show ?case by simp
next
  case (Cons s sizes)
  from Cons.prems obtain res w1 where b: "bench_all s s s R w = (Inr res, w1)"
    and f: "\<not> first w1" and eq: "create_status w1 = create_status w" "plan_sizes w1 = plan_sizes w"
      "creates w1 = creates w + 1"
    using bench_all_completes [of s R w] by auto
  let ?v = "w1\<lparr>stdout := stdout w1 @ [Row s res]\<rparr>"
  have "plans_ok ?v (creates ?v) (first ?v) sizes"
    using Cons.prems(1) f eq plans_ok_cong [of ?v w "creates w + 1" False sizes] by simp
  from Cons.IH [OF this Cons.prems(2)] show ?case using b by simp
qed

lemma main_completes:
  assumes "plans_ok w (creates w) (first w) [256, 512, 1024, 2048]"
  shows "\<exists>w'. main w = (Inr 0, w')"
proof -
  let ?h = "w\<lparr>stdout := stdout w @
                  [Text ''| size | naive, (min, avg, std) | cblas, (min, avg, std) | rknn, (min, avg, std) |'',
                   Text ''| --- | --- | --- | --- |'']\<rparr>"
  have "plans_ok ?h (creates ?h) (first ?h) [256, 512, 1024, 2048]"
    using assms plans_ok_cong [of ?h w "creates w" "first w" "[256, 512, 1024, 2048]"] by simp
  then obtain w' where "main_loop [256, 512, 1024, 2048] 20 ?h = (Inr (), w')"
    using main_loop_completes [of ?h "[256, 512, 1024, 2048]" 20] by auto
  then show ?thesis by (simp add: main_def)
qed

lemma main_aborts:
  assumes "create_status w (creates w) < 0"
  shows "\<exists>w'. main w = (Inl Aborted, w')"
proof -
  let ?h = "w\<lparr>stdout := stdout w @
                  [Text ''| size | naive, (min, avg, std) | cblas, (min, avg, std) | rknn, (min, avg, std) |'',
                   Text ''| --- | --- | --- | --- |'']\<rparr>"
  have "\<exists>w'. bench_all 256 256 256 20 ?h = (Inl Aborted, w')"
    by (rule bench_all_aborts) (use assms in simp_all)
  then show ?thesis by (auto simp: main_def)
qed

lemma main_loop_aborts:
  "plans_ok w (creates w) (first w) pre \<Longrightarrow> 1 \<le> unat s \<Longrightarrow> unat s < 2 ^ 31 \<Longrightarrow>
   create_status w (creates w + length pre) < 0 \<Longrightarrow> 1 \<le> R \<Longrightarrow>
     \<exists>w'. main_loop (pre @ s # post) R w = (Inl Aborted, w')"
proof (induction pre arbitrary: w)
  case Nil
  then have "\<exists>w'. bench_all s s s R w = (Inl Aborted, w')"
    using bench_all_aborts [of s R w] by simp
  then show ?case by auto
next
  case (Cons t pre)
  from Cons.prems obtain res w1 where b: "bench_all t t t R w = (Inr res, w1)"
    and f: "\<not> first w1" and eq: "create_status w1 = create_status w" "plan_sizes w1 = plan_sizes w"
      "creates w1 = creates w + 1"
    using bench_all_completes [of t R w] by auto
  let ?v = "w1\<lparr>stdout := stdout w1 @ [Row t res]\<rparr>"
  have "plans_ok ?v (creates ?v) (first ?v) pre"
    using Cons.prems(1) f eq plans_ok_cong [of ?v w "creates w + 1" False pre] by simp
  moreover have "create_status ?v (creates ?v + length pre) < 0"
    using Cons.prems(4) eq by simp
  ultimately obtain w' where "main_loop (pre @ s # post) R ?v = (Inl Aborted, w')"
    using Cons.IH [of ?v] Cons.prems by blast
  then show ?case using b by simp
qed

lemma main_sizes_split:
  assumes "k < 4"
  shows "[256, 512, 1024, 2048 :: size_t] =
           take k [256, 512, 1024, 2048] @ ([256, 512, 1024, 2048] ! k) # drop (Suc k) [256, 512, 1024, 2048] \<and>
         1 \<le> unat ([256, 512, 1024, 2048 :: size_t] ! k) \<and>
         unat ([256, 512, 1024, 2048 :: size_t] ! k) < 2 ^ 31"
proof -
  from assms consider "k = 0" | "k = Suc 0" | "k = Suc (Suc 0)" | "k = Suc (Suc (Suc 0))"
    by linarith
  then show ?thesis by cases simp_all
qed

lemma main_aborts_at:
  assumes k: "k < 4"
    and ok: "plans_ok w (creates w) (first w) (take k [256, 512, 1024, 2048])"
    and st: "create_status w (creates w + k) < 0"
  shows "\<exists>w'. main w = (Inl Aborted, w')"
proof -
  let ?S = "[256, 512, 1024, 2048 :: size_t]"
  let ?h = "w\<lparr>stdout := stdout w @
                  [Text ''| size | naive, (min, avg, std) | cblas, (min, avg, std) | rknn, (min, avg, std) |'',
                   Text ''| --- | --- | --- | --- |'']\<rparr>"
  note sp = main_sizes_split [OF k]
  have "plans_ok ?h (creates ?h) (first ?h) (take k ?S)"
    using ok plans_ok_cong [of ?h w "creates w" "first w" "take k ?S"] by simp
  moreover have "create_status ?h (creates ?h + length (take k ?S)) < 0" using st k by simp
  ultimately have "\<exists>w'. main_loop (take k ?S @ (?S ! k) # drop (Suc k) ?S) 20 ?h = (Inl Aborted, w')"
    using sp by (intro main_loop_aborts) simp_all
  then have "\<exists>w'. main_loop ?S 20 ?h = (Inl Aborted, w')" using sp by simp
  then show ?thesis by (auto simp: main_def)
qed

section \<open>Bindings and uploads\<close>

lemma occurrences_rknn_uploads:
  assumes r: "rknn c A B M K N v = (Inr C, v')"
    and q: "\<And>h m s. p (Rknn_matmul_set_io_mem h m s) = q s"
    and nr: "\<And>h. \<not> p (Rknn_matmul_run h)"
  shows "occurrences p v' =
           occurrences p v +
             (if first v then (if q Slot_A then 1 else 0) + (if q Slot_B then 1 else 0) else 0) \<and>
         \<not> first v'"
proof -
  have f: "\<not> first v'" using rknn_clears_first [of c A B M K N v] r by simp
  show ?thesis
  proof (cases "first v")
    case False
    with r nr f show ?thesis
      by (auto simp: rknn_def dest!: occurrences_read_floats)
  next
    case True
    obtain r1 v1 where a: "set_matrix_data (ctx c) (mem_A c) Slot_A A (v\<lparr>first := False\<rparr>) = (r1, v1)"
      by (cases "set_matrix_data (ctx c) (mem_A c) Slot_A A (v\<lparr>first := False\<rparr>)")
    obtain r2 v2 where b: "set_matrix_data (ctx c) (mem_B c) Slot_B B v1 = (r2, v2)"
      by (cases "set_matrix_data (ctx c) (mem_B c) Slot_B B v1")
    from r True a b have ok: "r1 = Inr ()" "r2 = Inr ()" and v': "v' = rknn_matmul_run (ctx c) v2"
      by (auto simp: rknn_def split: sum.splits dest!: occurrences_read_floats)
    have "occurrences p v1 = occurrences p v + (if q Slot_A then 1 else 0)"
      using occurrences_set_matrix_data [OF a, of p] ok q by simp
    moreover have "occurrences p v2 = occurrences p v1 + (if q Slot_B then 1 else 0)"
      using occurrences_set_matrix_data [OF b, of p] ok q by simp
    ultimately show ?thesis using v' nr True f by simp
  qed
qed

lemma benchmark_rknn_uploads:
  assumes b: "benchmark M K N R (rknn c) w = (Inr res, w')"
    and q: "\<And>h m s. p (Rknn_matmul_set_io_mem h m s) = q s"
    and nr: "\<And>h. \<not> p (Rknn_matmul_run h)"
  shows "occurrences p w' =
           occurrences p w +
             (if first w then (if q Slot_A then 1 else 0) + (if q Slot_B then 1 else 0) else 0) \<and>
         \<not> first w'"
proof -
  let ?u = "(if q Slot_A then 1 else 0) + (if q Slot_B then 1 else 0) :: nat"
  let ?A = "bench_A M K N w" and ?B = "bench_B M K N w"
  from b obtain samples where
      l: "benchmark_loop (rknn c) ?A ?B M K N R 0 [] (bench_start M K N w) = (Inr samples, w')"
      and ne: "samples \<noteq> []"
    by (cases rule: benchmark_cases [of "rknn c" M K N w R]) auto
  have "length samples = unat R" using benchmark_loop_funpow [OF l] by simp
  with ne have R: "0 < unat R" by (metis length_greater_0_conv)
  let ?P = "\<lambda>(n::nat) v. occurrences p v = occurrences p w + (if first w \<and> 0 < n then ?u else 0) \<and>
                  (first v \<longleftrightarrow> first w \<and> n = 0)"
  have "?P (unat R) w'"
  proof (rule benchmark_loop_rule [where P = ?P, OF _ l])
    fix n :: nat and v C v'
    assume P: "?P n v" and r: "rknn c ?A ?B M K N (snd (now v)) = (Inr C, v')"
    from occurrences_rknn_uploads [OF r q nr] P
    show "?P (Suc n) (snd (now v'))" by auto
  qed simp_all
  then show ?thesis using R by auto
qed

lemma first_matmul_naive_call: "matmul_naive_call A B M K N v = (r, v') \<Longrightarrow> first v' = first v"
  by (auto simp: matmul_naive_call_def emit_def split: option.splits)

lemma first_matmul_cblas_call: "matmul_cblas_call A B M K N v = (r, v') \<Longrightarrow> first v' = first v"
  by (auto simp: matmul_cblas_call_def emit_def split: option.splits)

lemma benchmark_keeps_first:
  assumes b: "benchmark M K N R func w = (r, w')"
    and f: "\<And>A B v r v'. func A B M K N v = (r, v') \<Longrightarrow> first v' = first v"
  shows "first w' = first w"
proof -
  have loop: "first v' = first w"
    if "benchmark_loop func (bench_A M K N w) (bench_B M K N w) M K N R 0 [] (bench_start M K N w) = (r', v')"
    for r' v'
  proof (rule benchmark_loop_any [where P = "\<lambda>v. first v = first w", OF _ that])
    fix v r v' assume "first v = first w"
      and "func (bench_A M K N w) (bench_B M K N w) M K N (snd (now v)) = (r, v')"
    then show "first v' = first w \<and> first (snd (now v')) = first w"
      using f [of "bench_A M K N w" "bench_B M K N w" "snd (now v)" r v'] by simp
  qed simp
  show ?thesis
    by (cases rule: benchmark_cases [of func M K N w R]) (use b loop in auto)
qed

lemma occurrences_make_matmul_bindings:
  assumes r: "make_matmul M K N v = (Inr c, v')"
    and q: "\<And>h m s. p (Rknn_matmul_set_io_mem h m s) = q s"
    and np: "\<And>st. \<not> p (Rknn_matmul_create st)" "\<And>h m. \<not> p (Rknn_create_mem h m)"
  shows "occurrences p v' =
           occurrences p v + (if q Slot_A then 1 else 0) + (if q Slot_B then 1 else 0) +
             (if q Slot_C then 1 else 0) \<and>
         first v' = first v"
  using r q np
  by (auto simp: make_matmul_def rknn_matmul_create_def rknn_create_mem_def
        rknn_matmul_set_io_mem_def occurrences_def emit_def Let_def split: if_splits prod.splits)

lemma bench_all_bindings:
  assumes b: "bench_all M K N R w = (Inr res, w')"
    and q: "\<And>h m s. p (Rknn_matmul_set_io_mem h m s) = q s"
    and np: "\<not> p Call_matmul_naive" "\<not> p Call_cblas_sgemm"
      "\<And>st. \<not> p (Rknn_matmul_create st)" "\<And>h m. \<not> p (Rknn_create_mem h m)"
      "\<And>h. \<not> p (Rknn_matmul_run h)"
  shows "occurrences p w' =
           occurrences p w + (if q Slot_A then 1 else 0) + (if q Slot_B then 1 else 0) +
             (if q Slot_C then 1 else 0) +
             (if first w then (if q Slot_A then 1 else 0) + (if q Slot_B then 1 else 0) else 0) \<and>
         \<not> first w'"
proof -
  from b obtain r1 w1 r2 w2 c w3 r3 where
    1: "benchmark M K N 3 matmul_naive_call w = (Inr r1, w1)" and
    2: "benchmark M K N R matmul_cblas_call w1 = (Inr r2, w2)" and
    3: "rknn_setup M K N w2 = (Inr c, w3)" and
    4: "benchmark M K N R (rknn c) w3 = (Inr r3, w')"
    by (rule bench_all_Inr)
  have o1: "occurrences p w1 = occurrences p w" "first w1 = first w"
    using benchmark_any [OF 1, of p] benchmark_keeps_first [OF 1] np
    by (simp_all add: occurrences_matmul_naive_call first_matmul_naive_call)
  have o2: "occurrences p w2 = occurrences p w1" "first w2 = first w1"
    using benchmark_any [OF 2, of p] benchmark_keeps_first [OF 2] np
    by (simp_all add: occurrences_matmul_cblas_call first_matmul_cblas_call)
  note o3 = occurrences_make_matmul_bindings [OF 3 [unfolded rknn_setup_def], of p q, OF q np(3) np(4)]
  note o4 = benchmark_rknn_uploads [OF 4, of p q, OF q np(5)]
  show ?thesis using o1 o2 o3 o4 by simp
qed

lemma main_loop_bindings:
  assumes q: "\<And>h m s. p (Rknn_matmul_set_io_mem h m s) = q s"
    and np: "\<not> p Call_matmul_naive" "\<not> p Call_cblas_sgemm"
      "\<And>st. \<not> p (Rknn_matmul_create st)" "\<And>h m. \<not> p (Rknn_create_mem h m)"
      "\<And>h. \<not> p (Rknn_matmul_run h)"
  shows "main_loop sizes R w = (Inr u, w') \<Longrightarrow>
     occurrences p w' =
       occurrences p w +
         length sizes * ((if q Slot_A then 1 else 0) + (if q Slot_B then 1 else 0) +
                         (if q Slot_C then 1 else 0)) +
         (if first w \<and> sizes \<noteq> [] then (if q Slot_A then 1 else 0) + (if q Slot_B then 1 else 0)
          else 0)"
proof (induction sizes arbitrary: w)
  case Nil
  then show ?case by simp
next
  case (Cons s sizes)
  from Cons.prems obtain res w1 where b: "bench_all s s s R w = (Inr res, w1)"
    and rest: "main_loop sizes R (w1\<lparr>stdout := stdout w1 @ [Row s res]\<rparr>) = (Inr u, w')"
    by (auto split: sum.splits prod.splits)
  note o = bench_all_bindings [OF b, of p q, OF q np]
  have "occurrences p (w1\<lparr>stdout := stdout w1 @ [Row s res]\<rparr>) = occurrences p w1"
    by (simp add: occurrences_def)
  then show ?case using Cons.IH [OF rest] o by simp
qed

lemma main_loop_runs:
  "main_loop sizes R w = (Inr u, w') \<Longrightarrow>
     occurrences (\<lambda>e. \<exists>h. e = Rknn_matmul_run h) w' =
       occurrences (\<lambda>e. \<exists>h. e = Rknn_matmul_run h) w + length sizes * unat R"
proof (induction sizes arbitrary: w)
  case Nil
  then show ?case by simp
next
  case (Cons s sizes)
  from Cons.prems obtain res w1 where b: "bench_all s s s R w = (Inr res, w1)"
    and rest: "main_loop sizes R (w1\<lparr>stdout := stdout w1 @ [Row s res]\<rparr>) = (Inr u, w')"
    by (auto split: sum.splits prod.splits)
  note o = bench_all_count [OF b, of "\<lambda>e. \<exists>h. e = Rknn_matmul_run h" True]
  have "occurrences (\<lambda>e. \<exists>h. e = Rknn_matmul_run h) (w1\<lparr>stdout := stdout w1 @ [Row s res]\<rparr>) =
        occurrences (\<lambda>e. \<exists>h. e = Rknn_matmul_run h) w1"
    by (simp add: occurrences_def)
  then show ?case using Cons.IH [OF rest] o by simp
qed

lemma main_Inr:
  assumes "main w = (Inr c, w')"
  shows "c = 0 \<and>
         main_loop [256, 512, 1024, 2048] 20
           (w\<lparr>stdout := stdout w @
                  [Text ''| size | naive, (min, avg, std) | cblas, (min, avg, std) | rknn, (min, avg, std) |'',
                   Text ''| --- | --- | --- | --- |'']\<rparr>) = (Inr (), w')"
  using assms by (auto simp: main_def split: sum.splits prod.splits)

lemma main_uploads:
  assumes m: "main w = (Inr c, w')"
  shows "occurrences (\<lambda>e. \<exists>h m. e = Rknn_matmul_set_io_mem h m Slot_A) w' =
           occurrences (\<lambda>e. \<exists>h m. e = Rknn_matmul_set_io_mem h m Slot_A) w + 4 + (if first w then 1 else 0)"
    and "occurrences (\<lambda>e. \<exists>h m. e = Rknn_matmul_set_io_mem h m Slot_B) w' =
           occurrences (\<lambda>e. \<exists>h m. e = Rknn_matmul_set_io_mem h m Slot_B) w + 4 + (if first w then 1 else 0)"
    and "occurrences (\<lambda>e. \<exists>h m. e = Rknn_matmul_set_io_mem h m Slot_C) w' =
           occurrences (\<lambda>e. \<exists>h m. e = Rknn_matmul_set_io_mem h m Slot_C) w + 4"
    and "occurrences (\<lambda>e. \<exists>h. e = Rknn_matmul_run h) w' =
           occurrences (\<lambda>e. \<exists>h. e = Rknn_matmul_run h) w + 80"
proof -
  let ?h = "w\<lparr>stdout := stdout w @
                  [Text ''| size | naive, (min, avg, std) | cblas, (min, avg, std) | rknn, (min, avg, std) |'',
                   Text ''| --- | --- | --- | --- |'']\<rparr>"
  have l: "main_loop [256, 512, 1024, 2048] 20 ?h = (Inr (), w')" using main_Inr [OF m] by simp
  have h: "occurrences p ?h = occurrences p w" for p by (simp add: occurrences_def)
  show "occurrences (\<lambda>e. \<exists>h m. e = Rknn_matmul_set_io_mem h m Slot_A) w' =
           occurrences (\<lambda>e. \<exists>h m. e = Rknn_matmul_set_io_mem h m Slot_A) w + 4 + (if first w then 1 else 0)"
    using main_loop_bindings [OF _ _ _ _ _ _ l, of "\<lambda>e. \<exists>h m. e = Rknn_matmul_set_io_mem h m Slot_A"
        "\<lambda>s. s = Slot_A"] h
    by simp
  show "occurrences (\<lambda>e. \<exists>h m. e = Rknn_matmul_set_io_mem h m Slot_B) w' =
           occurrences (\<lambda>e. \<exists>h m. e = Rknn_matmul_set_io_mem h m Slot_B) w + 4 + (if first w then 1 else 0)"
    using main_loop_bindings [OF _ _ _ _ _ _ l, of "\<lambda>e. \<exists>h m. e = Rknn_matmul_set_io_mem h m Slot_B"
        "\<lambda>s. s = Slot_B"] h
    by simp
  show "occurrences (\<lambda>e. \<exists>h m. e = Rknn_matmul_set_io_mem h m Slot_C) w' =
           occurrences (\<lambda>e. \<exists>h m. e = Rknn_matmul_set_io_mem h m Slot_C) w + 4"
    using main_loop_bindings [OF _ _ _ _ _ _ l, of "\<lambda>e. \<exists>h m. e = Rknn_matmul_set_io_mem h m Slot_C"
        "\<lambda>s. s = Slot_C"] h
    by simp
  show "occurrences (\<lambda>e. \<exists>h. e = Rknn_matmul_run h) w' =
           occurrences (\<lambda>e. \<exists>h. e = Rknn_matmul_run h) w + 80"
    using main_loop_runs [OF l] h by simp
qed

lemma main_outcome:
  assumes m: "main w = (r, w')"
  shows "(r = Inl Aborted \<longrightarrow> reported_failure w w') \<and>
         (r \<noteq> Inl Aborted \<longrightarrow> occurrences failed_negotiation w' = occurrences failed_negotiation w) \<and>
         (\<forall>c. r = Inr c \<longrightarrow> c = 0)"
proof -
  let ?h = "w\<lparr>stdout := stdout w @
                  [Text ''| size | naive, (min, avg, std) | cblas, (min, avg, std) | rknn, (min, avg, std) |'',
                   Text ''| --- | --- | --- | --- |'']\<rparr>"
  obtain r1 w1 where l: "main_loop [256, 512, 1024, 2048] 20 ?h = (r1, w1)"
    by (cases "main_loop [256, 512, 1024, 2048] 20 ?h")
  have eq: "occurrences failed_negotiation ?h = occurrences failed_negotiation w"
    by (simp add: occurrences_def)
  note o = main_loop_outcome [OF l]
  have w: "w' = w1" and r: "r = Inl Aborted \<longleftrightarrow> r1 = Inl Aborted"
    using m l by (auto simp: main_def split: sum.splits)
  have "r = Inl Aborted \<longrightarrow> reported_failure w w'"
    using o r w reported_failure_trans [OF eq] by blast
  moreover have "r \<noteq> Inl Aborted \<longrightarrow> occurrences failed_negotiation w' = occurrences failed_negotiation w"
    using o r w eq by simp
  moreover have "\<forall>c. r = Inr c \<longrightarrow> c = 0"
    using m l by (auto simp: main_def split: sum.splits)
  ultimately show ?thesis by blast
qed

section \<open>Claims about the naive backend\<close>

text \<open>
  Claim C4, as stated, at \<open>M = N = 2^32\<close>, \<open>K = 1\<close> and two vectors of \<open>2^32\<close>
  elements: the dimensions are at least 1 and the vectors have \<open>M * K\<close> and \<open>K * N\<close>
  elements, but \<open>M * N\<close> wraps around to 0 in \<open>size_t\<close>, the output vector is empty,
  and the first store \<open>C[0] = sum\<close> is out of bounds: no matrix is returned.
\<close>

theorem matmul_naive_product_overflow:
  "(1 :: size_t) \<le> 2 ^ 32 \<and> (1 :: size_t) \<le> 1 \<and>
   length (replicate (2 ^ 32) (0 :: real)) = unat (2 ^ 32 :: size_t) * unat (1 :: size_t) \<and>
   length (replicate (2 ^ 32) (0 :: real)) = unat (1 :: size_t) * unat (2 ^ 32 :: size_t) \<and>
   matmul_naive (replicate (2 ^ 32) 0) (replicate (2 ^ 32) (0 :: real)) (2 ^ 32) 1 (2 ^ 32) = None"
  by (simp add: matmul_naive_def naive_i.simps naive_j.simps naive_k.simps vec_put_def vec_at_def)

text \<open>
  Claim C4, amended: for all \<open>M\<close>, \<open>K\<close>, \<open>N\<close> whose product \<open>M * N\<close> fits in
  \<open>size_t\<close>, and vectors \<open>A\<close> of \<open>M * K\<close> and \<open>B\<close> of \<open>K * N\<close> elements (fewer than
  \<open>2^64\<close>, as in every \<open>std::vector\<close>), \<open>matmul_naive\<close> returns a vector of exactly
  \<open>M * N\<close> elements whose element \<open>i * N + j\<close> is the sum over \<open>k\<close> of
  \<open>A[i * K + k] * B[k * N + j]\<close>, accumulated from 0 in ascending order of \<open>k\<close>; for
  \<open>M = K = N = 1\<close> the result is the single element \<open>A[0] * B[0]\<close>. The arithmetic of
  the elements is any in which \<open>0 + x = x\<close>; no dimension needs to be positive. The
  allocation of the output vector is taken to succeed.
\<close>

theorem matmul_naive_product:
  fixes A B :: "'a::{monoid_add,times} list"
  assumes "length A = unat M * unat K" and "length B = unat K * unat N"
    and "length A < 2 ^ 64" and "length B < 2 ^ 64"
    and "unat M * unat N < 2 ^ 64"
  shows "\<exists>C. matmul_naive A B M K N = Some C \<and> length C = unat M * unat N \<and>
           (\<forall>i<unat M. \<forall>j<unat N.
              C ! (i * unat N + j) = dot_ascending A B (unat K) (unat N) i j) \<and>
           (M = 1 \<and> K = 1 \<and> N = 1 \<longrightarrow> C = [A ! 0 * B ! 0])"
proof -
  let ?C = "map (\<lambda>p. dot_ascending A B (unat K) (unat N) (p div unat N) (p mod unat N))
              [0..<unat M * unat N]"
  have r: "matmul_naive A B M K N = Some ?C"
    using assms by (rule matmul_naive_value)
  have cell: "?C ! (i * unat N + j) = dot_ascending A B (unat K) (unat N) i j"
    if "i < unat M" "j < unat N" for i j
  proof -
    have "i * unat N + j < unat M * unat N" using that by (rule row_major_bound)
    then show ?thesis using that by simp
  qed
  have one: "?C = [A ! 0 * B ! 0]" if "M = 1 \<and> K = 1 \<and> N = 1"
    using that by (simp add: dot_ascending_def)
  show ?thesis using r cell one by simp
qed

text \<open>Claim C4, amended, on two \<open>2 x 2\<close> matrices.\<close>

theorem matmul_naive_product_witness:
  "length [1, 2, 3, 4 :: int] = unat (2 :: size_t) * unat (2 :: size_t) \<and>
   length [5, 6, 7, 8 :: int] = unat (2 :: size_t) * unat (2 :: size_t) \<and>
   (\<exists>C. matmul_naive [1, 2, 3, 4 :: int] [5, 6, 7, 8] 2 2 2 = Some C \<and> length C = 4 \<and>
        C ! 0 = 19 \<and> C ! 1 = 22 \<and> C ! 2 = 43 \<and> C ! 3 = 50)"
proof -
  have "\<exists>C. matmul_naive [1, 2, 3, 4 :: int] [5, 6, 7, 8] 2 2 2 = Some C \<and>
          length C = unat (2 :: size_t) * unat (2 :: size_t) \<and>
          (\<forall>i<unat (2 :: size_t). \<forall>j<unat (2 :: size_t).
              C ! (i * unat (2 :: size_t) + j) =
                dot_ascending [1, 2, 3, 4 :: int] [5, 6, 7, 8] (unat (2 :: size_t)) (unat (2 :: size_t)) i j) \<and>
          ((2 :: size_t) = 1 \<and> (2 :: size_t) = 1 \<and> (2 :: size_t) = 1 \<longrightarrow> C = [[1, 2, 3, 4 :: int] ! 0 * [5, 6, 7, 8] ! 0])"
    by (rule matmul_naive_product) simp_all
  then obtain C where r: "matmul_naive [1, 2, 3, 4 :: int] [5, 6, 7, 8] 2 2 2 = Some C"
    and len: "length C = 4"
    and cell: "\<And>i j. i < 2 \<Longrightarrow> j < 2 \<Longrightarrow>
        C ! (i * 2 + j) = dot_ascending [1, 2, 3, 4 :: int] [5, 6, 7, 8] 2 2 i j"
    by auto
  have "C ! 0 = 19" using cell [of 0 0] by (simp add: dot_ascending_def upt_rec)
  moreover have "C ! 1 = 22" using cell [of 0 1] by (simp add: dot_ascending_def upt_rec)
  moreover have "C ! 2 = 43" using cell [of 1 0] by (simp add: dot_ascending_def upt_rec)
  moreover have "C ! 3 = 50" using cell [of 1 1] by (simp add: dot_ascending_def upt_rec)
  ultimately show ?thesis using r len by simp
qed

text \<open>
  Claim C10, as stated, at \<open>M = N = 2^32\<close>, \<open>K = 0\<close> and two empty vectors: the vectors
  have at least \<open>M * K = 0\<close> and \<open>K * N = 0\<close> elements, \<open>M * N\<close> wraps around to 0, and
  the store \<open>C[0] = sum\<close> of the first iteration is out of bounds.
\<close>

theorem matmul_naive_in_bounds_overflow:
  "unat (2 ^ 32 :: size_t) * unat (0 :: size_t) \<le> length ([] :: real list) \<and>
   unat (0 :: size_t) * unat (2 ^ 32 :: size_t) \<le> length ([] :: real list) \<and>
   matmul_naive [] ([] :: real list) (2 ^ 32) 0 (2 ^ 32) = None"
  by (simp add: matmul_naive_def naive_i.simps naive_j.simps naive_k.simps vec_put_def)

text \<open>
  Claim C10, amended: for all \<open>M\<close>, \<open>K\<close>, \<open>N\<close> whose product \<open>M * N\<close> fits in
  \<open>size_t\<close>, and vectors \<open>A\<close> of at least \<open>M * K\<close> and \<open>B\<close> of at least \<open>K * N\<close>
  elements, every element access of \<open>matmul_naive\<close> is within bounds: the function, in
  which an access out of bounds has the result \<open>None\<close>, returns a vector.
\<close>

theorem matmul_naive_in_bounds:
  fixes A B :: "'a::{zero,plus,times} list"
  assumes "unat M * unat K \<le> length A" and "unat K * unat N \<le> length B"
    and "unat M * unat N < 2 ^ 64"
  shows "\<exists>C. matmul_naive A B M K N = Some C"
  using matmul_naive_total [OF assms] by blast

text \<open>Claim C10, amended, on a \<open>1 x 2\<close> and a \<open>2 x 1\<close> matrix, the first vector longer than needed.\<close>

theorem matmul_naive_in_bounds_witness:
  "unat (1 :: size_t) * unat (2 :: size_t) \<le> length [1, 2, 9 :: int] \<and>
   unat (2 :: size_t) * unat (1 :: size_t) \<le> length [3, 4 :: int] \<and>
   unat (1 :: size_t) * unat (1 :: size_t) < 2 ^ 64 \<and>
   (\<exists>C. matmul_naive [1, 2, 9 :: int] [3, 4] 1 2 1 = Some C)"
  using matmul_naive_in_bounds [of 1 2 "[1, 2, 9 :: int]" 1 "[3, 4]"] by simp

section \<open>Claim about the library backend\<close>

text \<open>
  Claim C2, as stated, at \<open>M = K = N = 2\<close> with \<open>A\<close> the identity matrix: the naive
  backend returns \<open>B\<close>, the library backend returns the transpose of \<open>B\<close>.
\<close>

theorem matmul_cblas_differs:
  "(1 :: size_t) \<le> 2 \<and> length [1, 0, 0, 1 :: real] = unat (2 :: size_t) * unat (2 :: size_t) \<and>
   length [0, 1, 0, 0 :: real] = unat (2 :: size_t) * unat (2 :: size_t) \<and>
   matmul_naive [1, 0, 0, 1] [0, 1, 0, 0 :: real] 2 2 2 = Some [0, 1, 0, 0] \<and>
   matmul_cblas [1, 0, 0, 1] [0, 1, 0, 0] 2 2 2 = Some [0, 0, 1, 0]"
  by (simp add: matmul_naive_def naive_i.simps naive_j.simps naive_k.simps vec_put_def vec_at_def
        matmul_cblas_def cblas_sgemm_def sgemm_def sgemm_legal_def sgemm_fits_def min_ld_def
        op_index_def cell_of_def upt_rec)
     (simp add: numeral_eq_Suc)

text \<open>
  Claim C2, amended: for all \<open>M < 2^31\<close> and all \<open>K = N\<close> with \<open>1 \<le> N < 2^31\<close>
  (dimensions that the \<open>int\<close> parameters of the routine can hold, and a square right
  operand, as in every call the driver makes), and inputs \<open>A\<close> (\<open>M x N\<close> row-major) and
  \<open>B\<close> (\<open>N x N\<close> row-major), under exact real arithmetic \<open>matmul_cblas\<close> returns the
  product of \<open>A\<close> and the transpose of \<open>B\<close>: element \<open>i * N + j\<close> is the sum over \<open>k\<close>
  of \<open>A[i * N + k] * B[j * N + k]\<close>, which is what \<open>matmul_naive\<close> returns on \<open>A\<close> and the
  transposed \<open>B\<close>.
\<close>

theorem matmul_cblas_transposed:
  fixes A B :: "real list"
  assumes "1 \<le> unat N" and "unat M < 2 ^ 31" and "unat N < 2 ^ 31"
    and "length A = unat M * unat N" and "length B = unat N * unat N"
  shows "\<exists>C. matmul_cblas A B M N N = Some C \<and>
           matmul_naive A (transpose_rm (unat N) (unat N) B) M N N = Some C \<and>
           length C = unat M * unat N \<and>
           (\<forall>i<unat M. \<forall>j<unat N.
              C ! (i * unat N + j) = (\<Sum>k\<leftarrow>[0..<unat N]. A ! (i * unat N + k) * B ! (j * unat N + k)))"
proof -
  let ?n = "unat N"
  let ?C = "map (\<lambda>p. \<Sum>k\<leftarrow>[0..<?n]. A ! ((p div ?n) * ?n + k) * B ! ((p mod ?n) * ?n + k))
              [0..<unat M * ?n]"
  have c: "matmul_cblas A B M N N = Some ?C"
    using assms by (intro matmul_cblas_square) simp_all
  have "unat M * ?n \<le> 2 ^ 31 * 2 ^ 31" using assms(2,3) by (intro mult_mono) simp_all
  then have mn: "unat M * ?n < 2 ^ 64" by simp
  have "?n * ?n \<le> 2 ^ 31 * 2 ^ 31" using assms(3) by (intro mult_mono) simp_all
  then have nn: "?n * ?n < 2 ^ 64" by simp
  have lt: "length (transpose_rm ?n ?n B) = ?n * ?n" by (simp add: transpose_rm_def)
  have "matmul_naive A (transpose_rm ?n ?n B) M N N =
      Some (map (\<lambda>p. dot_ascending A (transpose_rm ?n ?n B) ?n ?n (p div ?n) (p mod ?n))
             [0..<unat M * ?n])"
    using assms lt mn nn by (intro matmul_naive_value) simp_all
  also have "map (\<lambda>p. dot_ascending A (transpose_rm ?n ?n B) ?n ?n (p div ?n) (p mod ?n))
             [0..<unat M * ?n] = ?C"
    by (rule map_cong) (simp_all add: dot_ascending_transposed mod_bound)
  finally have nv: "matmul_naive A (transpose_rm ?n ?n B) M N N = Some ?C" .
  have cell: "?C ! (i * ?n + j) = (\<Sum>k\<leftarrow>[0..<?n]. A ! (i * ?n + k) * B ! (j * ?n + k))"
    if "i < unat M" "j < ?n" for i j
  proof -
    have "i * ?n + j < unat M * ?n" using that by (rule row_major_bound)
    then show ?thesis using that by simp
  qed
  show ?thesis using c nv cell by simp
qed

text \<open>Claim C2, amended, on the identity and a \<open>2 x 2\<close> matrix that is not symmetric.\<close>

theorem matmul_cblas_transposed_witness:
  "1 \<le> unat (2 :: size_t) \<and> unat (2 :: size_t) < 2 ^ 31 \<and>
   matmul_cblas [1, 0, 0, 1] [0, 1, 0, 0] 2 2 2 = matmul_naive [1, 0, 0, 1] [0, 0, 1, 0 :: real] 2 2 2"
proof -
  have t: "transpose_rm 2 2 [0, 1, 0, 0 :: real] = [0, 0, 1, 0]"
    by (simp add: transpose_rm_def upt_rec)
  have "\<exists>C. matmul_cblas [1, 0, 0, 1] [0, 1, 0, 0 :: real] 2 2 2 = Some C \<and>
          matmul_naive [1, 0, 0, 1] (transpose_rm (unat (2 :: size_t)) (unat (2 :: size_t)) [0, 1, 0, 0 :: real]) 2 2 2 = Some C \<and>
          length C = unat (2 :: size_t) * unat (2 :: size_t) \<and>
          (\<forall>i<unat (2 :: size_t). \<forall>j<unat (2 :: size_t).
              C ! (i * unat (2 :: size_t) + j) =
                (\<Sum>k\<leftarrow>[0..<unat (2 :: size_t)]. [1, 0, 0, 1] ! (i * unat (2 :: size_t) + k) *
                    [0, 1, 0, 0 :: real] ! (j * unat (2 :: size_t) + k)))"
    by (rule matmul_cblas_transposed) simp_all
  then show ?thesis by (auto simp: t)
qed

section \<open>Claims about the statistics\<close>

text \<open>
  Claim C6: for every non-empty sample sequence, \<open>calculateAverage\<close> returns the
  arithmetic mean (the sum of the samples divided by their count), and
  \<open>calculateStdDev\<close> returns the population standard deviation: the square root of the
  sum of the squared deviations from that mean, divided by the count \<open>N\<close> (not
  \<open>N - 1\<close>). In exact arithmetic, on finite samples, the results are the real numbers
  these formulas denote; and in every arithmetic \<open>r\<close>, on every sequence \<open>V\<close>, the two
  functions evaluate these formulas with the sums accumulated from 0 in the order of the
  samples.
\<close>

theorem statistics_formulas:
  assumes "S \<noteq> []"
  shows "calculateAverage exact (map Fin S) = Fin (sum_list S / real (length S)) \<and>
         calculateStdDev exact (map Fin S) =
           Fin (sqrt ((\<Sum>x\<leftarrow>S. (x - sum_list S / real (length S))\<^sup>2) / real (length S))) \<and>
         calculateAverage r V = mean_in r V \<and> calculateStdDev r V = stddev_in r V"
proof -
  have "calculateAverage exact (map Fin S) = Fin (sum_list S / real (length S))"
    using assms by (rule calculateAverage_exact)
  moreover have "calculateStdDev exact (map Fin S) =
           Fin (sqrt ((\<Sum>x\<leftarrow>S. (x - sum_list S / real (length S))\<^sup>2) / real (length S)))"
    using assms by (rule calculateStdDev_exact)
  moreover have "calculateAverage r V = mean_in r V" by (rule calculateAverage_mean_in)
  moreover have "calculateStdDev r V = stddev_in r V" by (rule calculateStdDev_stddev_in)
  ultimately show ?thesis by (intro conjI)
qed

text \<open>Claim C6 on the samples 1 and 3: mean 2, deviation 1.\<close>

theorem statistics_formulas_witness:
  "[1, 3 :: real] \<noteq> [] \<and>
   calculateAverage exact [Fin 1, Fin 3] = Fin 2 \<and> calculateStdDev exact [Fin 1, Fin 3] = Fin 1"
  using statistics_formulas [of "[1, 3]" exact "[]"] by simp

text \<open>
  Claim C7, as stated, on the single sample \<open>+infinity\<close>, a value of \<open>float\<close>: the
  minimum and the average are \<open>+infinity\<close>, and the deviation is NaN, which is not at
  least 0 and is not 0, although all elements of the sequence are equal.
\<close>

theorem statistics_relations_infinity:
  "[PInf] \<noteq> [] \<and> min_element [PInf] = Some PInf \<and> calculateAverage binary64 [PInf] = PInf \<and>
   calculateStdDev binary64 [PInf] = NaN \<and> \<not> fle (Fin 0) (calculateStdDev binary64 [PInf]) \<and>
   calculateStdDev binary64 [PInf] \<noteq> Fin 0"
proof -
  have n: "binary64 (real (length [PInf])) = Fin 1" by simp
  have a: "calculateAverage binary64 [PInf] = PInf"
    by (simp add: calculateAverage_def del: list.size) (simp add: n)
  have "calculateStdDev binary64 [PInf] = NaN"
    by (simp add: calculateStdDev_def a fsub_def del: list.size)
  then show ?thesis using a by (simp add: min_element_loop.simps)
qed

text \<open>
  Claim C7, amended: for every non-empty sequence \<open>S\<close> of at most \<open>2^29\<close> finite
  \<open>float\<close> values, with the statistics computed in \<open>binary64\<close> as the program computes
  them, the results are finite, the minimum of \<open>S\<close> (the value \<open>benchmark\<close> takes with
  \<open>*std::min_element\<close>) is at most \<open>calculateAverage S\<close>, \<open>calculateStdDev S\<close> is not
  negative, and it is 0 if and only if all elements of \<open>S\<close> are equal. A finite
  \<open>float\<close> value is a real number that rounding to \<open>binary32\<close> leaves as it is.
\<close>

theorem statistics_relations:
  assumes "S \<noteq> []" and "length S \<le> 2 ^ 29" and "\<forall>x\<in>set S. binary32 x = Fin x"
  shows "\<exists>avg sd.
           min_element (map Fin S) = Some (Fin (Min (set S))) \<and>
           calculateAverage binary64 (map Fin S) = Fin avg \<and>
           calculateStdDev binary64 (map Fin S) = Fin sd \<and>
           Min (set S) \<le> avg \<and> 0 \<le> sd \<and> (sd = 0 \<longleftrightarrow> (\<forall>x\<in>set S. \<forall>y\<in>set S. x = y))"
proof -
  have "stddev64 S = 0 \<longleftrightarrow> (\<forall>x\<in>set S. \<forall>y\<in>set S. x = y)"
  proof
    assume z: "stddev64 S = 0"
    have "v = mean64 S" if "v \<in> set S" for v
      using stddev64_pos [OF assms that] z by fastforce
    then show "\<forall>x\<in>set S. \<forall>y\<in>set S. x = y" by metis
  next
    assume "\<forall>x\<in>set S. \<forall>y\<in>set S. x = y"
    with assms show "stddev64 S = 0" by (rule stddev64_equal)
  qed
  then show ?thesis
    using assms min_element_Fin [OF assms(1)] stats64_values(1,2) [OF assms]
      mean64_ge_Min [OF assms] stddev64_nonneg [OF assms]
    by blast
qed

text \<open>
  Claim C7, amended, on the samples 1 and 3: the minimum 1 is below the average 2, and the
  deviation is 1, the samples being different.
\<close>

theorem statistics_relations_witness:
  "[1, 3 :: real] \<noteq> [] \<and> length [1, 3 :: real] \<le> 2 ^ 29 \<and>
   binary32 1 = Fin 1 \<and> binary32 3 = Fin 3 \<and>
   min_element [Fin 1, Fin 3] = Some (Fin 1) \<and>
   calculateAverage binary64 [Fin 1, Fin 3] = Fin 2 \<and>
   calculateStdDev binary64 [Fin 1, Fin 3] = Fin 1"
proof -
  have a: "calculateAverage binary64 [Fin 1, Fin 3] = Fin 2"
    by (simp add: calculateAverage_def)
  have "calculateStdDev binary64 [Fin 1, Fin 3] = Fin 1"
    by (simp add: calculateStdDev_def a fsub_def)
  then show ?thesis using a statistics_relations [of "[1, 3]"] by simp
qed

section \<open>Claim about the benchmark runner\<close>

text \<open>
  Claim C5, as stated, at \<open>M = K = 2^32\<close>, \<open>N = 1\<close> and \<open>R = 1\<close>: the matrix \<open>A\<close>
  (\<open>M x K\<close>) has \<open>2^64\<close> elements, but \<open>make_random_matrix\<close> computes the number of
  elements in \<open>size_t\<close>, where the product is 0: the matrix generated is empty, and the run
  with a backend that returns only when it is handed an empty \<open>A\<close> returns a triple.
\<close>

theorem benchmark_protocol_overflow:
  "(1 :: size_t) \<le> 1 \<and> unat (2 ^ 32 :: size_t) * unat (2 ^ 32 :: size_t) = 2 ^ 64 \<and>
   fst (make_random_matrix (2 ^ 32) (2 ^ 32) (initial_world (\<lambda>n. 0) (\<lambda>n. 0) (\<lambda>n. 0) (\<lambda>n. (0, 0, 0)) (\<lambda>r i. 0))) = [] \<and>
   (\<exists>res w'.
      benchmark (2 ^ 32) (2 ^ 32) 1 1 (\<lambda>A B M K N v. (if A = [] then Inr [] else Inl Undefined, v))
        (initial_world (\<lambda>n. 0) (\<lambda>n. 0) (\<lambda>n. 0) (\<lambda>n. (0, 0, 0)) (\<lambda>r i. 0)) = (Inr res, w'))"
  by (simp add: benchmark_def benchmark_loop.simps make_random_matrix_def now_def initial_world_def)

text \<open>
  Claim C5, amended: for all \<open>M\<close>, \<open>K\<close>, \<open>N\<close> whose products \<open>M * K\<close> and \<open>K * N\<close> fit
  in \<open>size_t\<close>, and every repeat count \<open>R\<close>, with \<open>A\<close> the next \<open>M * K\<close> values of the
  random source and \<open>B\<close> the \<open>K * N\<close> values after them. First part: with \<open>R \<ge> 1\<close> and
  a backend that returns on these inputs, \<open>benchmark\<close> returns a triple. Second part:
  whenever it returns a triple, \<open>R \<ge> 1\<close>; the final state and the samples are those of
  \<open>R\<close> timed invocations of the backend on the pair \<open>A\<close>, \<open>B\<close>, one after the other,
  started when both matrices have been drawn and the clock has been read once; there are
  \<open>R\<close> samples, each the whole milliseconds between the clock readings around its
  invocation, divided by 1000 as a \<open>float\<close>; and the triple is a least one of these
  samples, their mean and their population standard deviation, evaluated in \<open>binary64\<close>.
\<close>

theorem benchmark_protocol:
  assumes "unat M * unat K < 2 ^ 64" and "unat K * unat N < 2 ^ 64"
  shows
  "(1 \<le> R \<and> (\<forall>v. \<exists>C v'. func (input_A M K w) (input_B M K N w) M K N v = (Inr C, v')) \<longrightarrow>
      (\<exists>res w'. benchmark M K N R func w = (Inr res, w'))) \<and>
   (\<forall>res w'. benchmark M K N R func w = (Inr res, w') \<longrightarrow>
      1 \<le> R \<and>
      length (input_A M K w) = unat M * unat K \<and> length (input_B M K N w) = unat K * unat N \<and>
      (\<exists>samples smallest.
         (timed_call func (input_A M K w) (input_B M K N w) M K N ^^ unat R)
           ([], timing_start M K N w) = (samples, w') \<and>
         length samples = unat R \<and>
         res = (smallest, mean_in binary64 samples, stddev_in binary64 samples) \<and>
         smallest \<in> set samples \<and> (\<forall>x\<in>set samples. fle smallest x)))"
proof (intro conjI impI allI)
  note inp = bench_inputs [OF assms, of w]
  assume a: "1 \<le> R \<and> (\<forall>v. \<exists>C v'. func (input_A M K w) (input_B M K N w) M K N v = (Inr C, v'))"
  have "\<exists>s' w'. benchmark_loop func (bench_A M K N w) (bench_B M K N w) M K N R 0 [] (bench_start M K N w) =
          (Inr s', w') \<and> True"
    by (rule benchmark_loop_total [where I = "\<lambda>v. True"]) (use a inp in auto)
  then obtain s' w' where l: "benchmark_loop func (bench_A M K N w) (bench_B M K N w) M K N R 0 []
      (bench_start M K N w) = (Inr s', w')" by blast
  have "length s' = unat R" using benchmark_loop_funpow [OF l] by simp
  moreover have "0 < unat R" using a by (simp add: word_le_nat_alt)
  ultimately have "s' \<noteq> []" by (metis length_greater_0_conv)
  then show "\<exists>res w'. benchmark M K N R func w = (Inr res, w')"
    using benchmark_of_loop [OF l] by auto
next
  note inp = bench_inputs [OF assms, of w]
  fix res w' assume b: "benchmark M K N R func w = (Inr res, w')"
  show "length (input_A M K w) = unat M * unat K" by (simp add: input_A_def random_values_def)
  show "length (input_B M K N w) = unat K * unat N" by (simp add: input_B_def random_values_def)
  from b obtain samples where
      l: "benchmark_loop func (bench_A M K N w) (bench_B M K N w) M K N R 0 [] (bench_start M K N w) =
            (Inr samples, w')"
      and ne: "samples \<noteq> []"
      and r: "res = (min_element_loop (hd samples) (tl samples), calculateAverage binary64 samples,
                     calculateStdDev binary64 samples)"
    by (cases rule: benchmark_cases [of func M K N w R]) auto
  have fp: "(timed_call func (input_A M K w) (input_B M K N w) M K N ^^ unat R) ([], timing_start M K N w) =
           (samples, w')" and len: "length samples = unat R"
    using benchmark_loop_funpow [OF l] inp by simp_all
  from len ne have "0 < unat R" by (metis length_greater_0_conv)
  then show "1 \<le> R" by (simp add: word_le_nat_alt)
  have "NaN \<notin> set samples" using fp by (rule timed_call_no_NaN) simp
  then have least: "min_element_loop (hd samples) (tl samples) \<in> set samples \<and>
      (\<forall>x\<in>set samples. fle (min_element_loop (hd samples) (tl samples)) x)"
    using ne by (intro min_element_least)
  have "res = (min_element_loop (hd samples) (tl samples), mean_in binary64 samples,
               stddev_in binary64 samples)"
    using r by (simp add: calculateAverage_mean_in calculateStdDev_stddev_in)
  with fp len least show "\<exists>samples smallest.
         (timed_call func (input_A M K w) (input_B M K N w) M K N ^^ unat R)
           ([], timing_start M K N w) = (samples, w') \<and>
         length samples = unat R \<and>
         res = (smallest, mean_in binary64 samples, stddev_in binary64 samples) \<and>
         smallest \<in> set samples \<and> (\<forall>x\<in>set samples. fle smallest x)" by blast
qed

text \<open>
  Claim C5, amended, on the naive backend with \<open>M = K = N = 1\<close> and \<open>R = 2\<close>, the random
  source delivering \<open>1/2\<close> and the clock reading 0 s, 0 s, 1 s, 1 s and 4 s: the invocations
  take 1 s and 3 s, and the triple is (1, 2, 1).
\<close>

theorem benchmark_protocol_witness:
  "unat (1 :: size_t) * unat (1 :: size_t) < 2 ^ 64 \<and> (1 :: size_t) \<le> 2 \<and>
   (\<exists>w'. benchmark 1 1 1 2 matmul_naive_call
            (initial_world (\<lambda>n. 1 / 2)
               (\<lambda>n. if n < 2 then 0 else if n < 4 then 1000000000 else 4000000000)
               (\<lambda>n. 0) (\<lambda>n. (2, 2, 4)) (\<lambda>r i. 7)) = (Inr (Fin 1, Fin 2, Fin 1), w') \<and>
          trace w' = [Call_matmul_naive, Call_matmul_naive] \<and> drawn w' = 2 \<and> ticks w' = 5)"
proof -
  let ?w = "initial_world (\<lambda>n. 1 / 2)
               (\<lambda>n. if n < 2 then 0 else if n < 4 then 1000000000 else 4000000000)
               (\<lambda>n. 0) (\<lambda>n. (2, 2, 4)) (\<lambda>r i. 7)"
  have A: "input_A 1 1 ?w = [1 / 2]" and B: "input_B 1 1 1 ?w = [1 / 2]"
    by (simp_all add: input_A_def input_B_def random_values_def initial_world_def)
  note p = benchmark_protocol [of 1 1 1 2 matmul_naive_call ?w, unfolded A B]
  have tot: "\<forall>v. \<exists>C v'. matmul_naive_call [1 / 2] [1 / 2] 1 1 1 v = (Inr C, v')"
    by (simp add: run_simps naive_run_simps)
  from p tot obtain res w' where b: "benchmark 1 1 1 2 matmul_naive_call ?w = (Inr res, w')"
    by auto
  from p b obtain samples smallest where
    f: "(timed_call matmul_naive_call [1 / 2] [1 / 2] 1 1 1 ^^ unat (2 :: size_t)) ([], timing_start 1 1 1 ?w) =
          (samples, w')"
    and r: "res = (smallest, mean_in binary64 samples, stddev_in binary64 samples)"
    and m: "smallest \<in> set samples" "\<forall>x\<in>set samples. fle smallest x"
    by auto
  have u: "unat (2 :: size_t) = Suc (Suc 0)" by simp
  have s: "samples = [Fin 1, Fin 3]"
    and w': "trace w' = [Call_matmul_naive, Call_matmul_naive]" "drawn w' = 2" "ticks w' = 5"
    using f unfolding u
    by (auto simp: timed_call_def timing_sample_def timing_start_def run_simps naive_run_simps)
  have "smallest = Fin 1" using m s by auto
  moreover have "mean_in binary64 [Fin 1, Fin 3] = Fin 2" by (simp add: mean_in_def)
  moreover from this have "stddev_in binary64 [Fin 1, Fin 3] = Fin 1"
    by (simp add: stddev_in_def fsub_def)
  ultimately show ?thesis using b r s w' by simp
qed

section \<open>Claim about the repeat counts\<close>

text \<open>
  Claim C9: for every requested repeat count \<open>R\<close>, \<open>bench_all\<close> runs the naive backend
  with the fixed repeat count 3, independent of \<open>R\<close>, and the library and hardware
  backends with \<open>R\<close> each. First part: a call of \<open>bench_all\<close> that returns has added to
  the trace three entries into \<open>matmul_naive\<close>, \<open>R\<close> calls of \<open>cblas_sgemm\<close> and \<open>R\<close>
  calls of \<open>rknn_matmul_run\<close>. Second part: on a square shape of a size from 1 to
  \<open>2^31 - 1\<close>, which the \<open>int\<close> parameters of the library routine and of the driver can
  hold, with \<open>R \<ge> 1\<close> and a device that serves the size, the call returns, with these
  counts.
\<close>

theorem bench_all_repeat_counts:
  "(bench_all M K N R w = (Inr res, w') \<longrightarrow>
      occurrences (\<lambda>e. e = Call_matmul_naive) w' = occurrences (\<lambda>e. e = Call_matmul_naive) w + 3 \<and>
      occurrences (\<lambda>e. e = Call_cblas_sgemm) w' = occurrences (\<lambda>e. e = Call_cblas_sgemm) w + unat R \<and>
      occurrences (\<lambda>e. \<exists>h. e = Rknn_matmul_run h) w' =
        occurrences (\<lambda>e. \<exists>h. e = Rknn_matmul_run h) w + unat R) \<and>
   (1 \<le> unat s \<and> unat s < 2 ^ 31 \<and> 1 \<le> R \<and> plan_ok v (creates v) s (first v) \<longrightarrow>
      (\<exists>res v'. bench_all s s s R v = (Inr res, v') \<and>
         occurrences (\<lambda>e. e = Call_matmul_naive) v' = occurrences (\<lambda>e. e = Call_matmul_naive) v + 3 \<and>
         occurrences (\<lambda>e. e = Call_cblas_sgemm) v' = occurrences (\<lambda>e. e = Call_cblas_sgemm) v + unat R \<and>
         occurrences (\<lambda>e. \<exists>h. e = Rknn_matmul_run h) v' =
           occurrences (\<lambda>e. \<exists>h. e = Rknn_matmul_run h) v + unat R))"
proof -
  have counts: "occurrences (\<lambda>e. e = Call_matmul_naive) w' = occurrences (\<lambda>e. e = Call_matmul_naive) w + 3 \<and>
      occurrences (\<lambda>e. e = Call_cblas_sgemm) w' = occurrences (\<lambda>e. e = Call_cblas_sgemm) w + unat R \<and>
      occurrences (\<lambda>e. \<exists>h. e = Rknn_matmul_run h) w' =
        occurrences (\<lambda>e. \<exists>h. e = Rknn_matmul_run h) w + unat R"
    if b: "bench_all M K N R w = (Inr res, w')" for M K N R w res w'
    using bench_all_count [OF b, of "\<lambda>e. e = Call_matmul_naive" False]
      bench_all_count [OF b, of "\<lambda>e. e = Call_cblas_sgemm" False]
      bench_all_count [OF b, of "\<lambda>e. \<exists>h. e = Rknn_matmul_run h" True]
    by simp
  have "\<exists>res v'. bench_all s s s R v = (Inr res, v') \<and>
         occurrences (\<lambda>e. e = Call_matmul_naive) v' = occurrences (\<lambda>e. e = Call_matmul_naive) v + 3 \<and>
         occurrences (\<lambda>e. e = Call_cblas_sgemm) v' = occurrences (\<lambda>e. e = Call_cblas_sgemm) v + unat R \<and>
         occurrences (\<lambda>e. \<exists>h. e = Rknn_matmul_run h) v' =
           occurrences (\<lambda>e. \<exists>h. e = Rknn_matmul_run h) v + unat R"
    if "1 \<le> unat s \<and> unat s < 2 ^ 31 \<and> 1 \<le> R \<and> plan_ok v (creates v) s (first v)"
  proof -
    from that obtain res v' where b: "bench_all s s s R v = (Inr res, v')"
      using bench_all_completes [of s R v] by blast
    show ?thesis using b counts [OF b] by blast
  qed
  then show ?thesis using counts by blast
qed

text \<open>
  Claim C9 from the initial state: at \<open>M = K = N = 1\<close> with \<open>R = 5\<close>, by running the
  model, and at \<open>M = K = N = 256\<close> with \<open>R = 20\<close>, the first call \<open>main\<close> makes.
\<close>

theorem bench_all_repeat_counts_witness:
  "(\<exists>res w'.
     bench_all 1 1 1 5
       (initial_world (\<lambda>n. 1 / 2) (\<lambda>n. int n * 3000000) (\<lambda>n. 0) (\<lambda>n. (2, 2, 4)) (\<lambda>r i. 7)) =
       (Inr res, w') \<and>
     occurrences (\<lambda>e. e = Call_matmul_naive) w' = 3 \<and>
     occurrences (\<lambda>e. e = Call_cblas_sgemm) w' = 5 \<and>
     occurrences (\<lambda>e. \<exists>h. e = Rknn_matmul_run h) w' = 5) \<and>
   (\<exists>res w'.
     bench_all 256 256 256 20
       (initial_world (\<lambda>n. 1 / 2) (\<lambda>n. int n * 3000000) (\<lambda>n. 0)
          (\<lambda>n. (131072, 131072, 16777216)) (\<lambda>r i. 7)) = (Inr res, w') \<and>
     occurrences (\<lambda>e. e = Call_matmul_naive) w' = 3 \<and>
     occurrences (\<lambda>e. e = Call_cblas_sgemm) w' = 20 \<and>
     occurrences (\<lambda>e. \<exists>h. e = Rknn_matmul_run h) w' = 20)"
proof -
  let ?w = "initial_world (\<lambda>n. 1 / 2) (\<lambda>n. int n * 3000000) (\<lambda>n. 0) (\<lambda>n. (2, 2, 4)) (\<lambda>r i. 7)"
  let ?g = "initial_world (\<lambda>n. 1 / 2) (\<lambda>n. int n * 3000000) (\<lambda>n. 0)
          (\<lambda>n. (131072, 131072, 16777216)) (\<lambda>r i. 7)"
  have "\<exists>res. fst (bench_all 1 1 1 5 ?w) = Inr res"
    by (simp add: run_simps naive_run_simps bench_run_simps)
  then obtain res w' where b: "bench_all 1 1 1 5 ?w = (Inr res, w')"
    by (cases "bench_all 1 1 1 5 ?w") auto
  have 0: "occurrences p ?w = 0" "occurrences p ?g = 0" for p
    by (simp_all add: occurrences_def initial_world_def)
  have 1: "\<exists>res w'. bench_all 1 1 1 5 ?w = (Inr res, w') \<and>
     occurrences (\<lambda>e. e = Call_matmul_naive) w' = 3 \<and>
     occurrences (\<lambda>e. e = Call_cblas_sgemm) w' = 5 \<and>
     occurrences (\<lambda>e. \<exists>h. e = Rknn_matmul_run h) w' = 5"
    using bench_all_repeat_counts [of 1 1 1 5 ?w res w' 256 ?g] b by (simp add: 0)
  have g: "plan_ok ?g (creates ?g) 256 (first ?g)" by (simp add: plan_ok_def initial_world_def)
  have 2: "\<exists>res w'. bench_all 256 256 256 20 ?g = (Inr res, w') \<and>
     occurrences (\<lambda>e. e = Call_matmul_naive) w' = 3 \<and>
     occurrences (\<lambda>e. e = Call_cblas_sgemm) w' = 20 \<and>
     occurrences (\<lambda>e. \<exists>h. e = Rknn_matmul_run h) w' = 20"
    using bench_all_repeat_counts [of 1 1 1 20 ?w res w' 256 ?g] g by (simp add: 0)
  show ?thesis using 1 2 by blast
qed

section \<open>Claim about the fatal setup failure\<close>

text \<open>
  Claim C8: if the plan negotiation \<open>rknn_matmul_create\<close> returns a negative status
  during setup, the program reports the status and aborts immediately, with no retry and no
  fallback; otherwise, on normal completion of all sizes, the process exits with code 0.
  First part: \<open>make_matmul\<close> on a negative status ends in \<open>abort()\<close>, and all it does
  after the negotiation is to print the message with the status. Second part: when the
  device serves the first \<open>k\<close> sizes of \<open>main\<close> and answers the next negotiation with a
  negative status, \<open>main\<close> ends in \<open>abort()\<close>, the failed negotiation is the last
  event and the only failed one, and the message is the last output. Third part: when the
  device serves all four sizes, \<open>main\<close> returns the exit code 0. Fourth part, for every
  run of \<open>main\<close>: a run that ends in \<open>abort()\<close> has reported a failed negotiation in
  this way, a run that does not has seen no failed negotiation, and an exit code returned
  is 0.
\<close>

theorem negotiation_failure_aborts:
  "(create_status v (creates v) < 0 \<longrightarrow>
      make_matmul M K N v =
        (Inl Aborted,
         (emit (Rknn_matmul_create (create_status v (creates v))) (v\<lparr>creates := creates v + 1\<rparr>))
           \<lparr>stdout := stdout v @
              [Printf ''rknn_matmul_create fail! ret=%d\<newline>'' (create_status v (creates v))]\<rparr>)) \<and>
   (k < 4 \<and> plans_ok w (creates w) (first w) (take k [256, 512, 1024, 2048]) \<and>
    create_status w (creates w + k) < 0 \<longrightarrow>
      (\<exists>w'. main w = (Inl Aborted, w') \<and> reported_failure w w')) \<and>
   (plans_ok w (creates w) (first w) [256, 512, 1024, 2048] \<longrightarrow>
      (\<exists>w'. main w = (Inr 0, w') \<and>
            occurrences failed_negotiation w' = occurrences failed_negotiation w)) \<and>
   (main w0 = (r0, w0') \<longrightarrow>
      (r0 = Inl Aborted \<longrightarrow> reported_failure w0 w0') \<and>
      (r0 \<noteq> Inl Aborted \<longrightarrow> occurrences failed_negotiation w0' = occurrences failed_negotiation w0) \<and>
      (\<forall>c. r0 = Inr c \<longrightarrow> c = 0))"
proof (intro conjI impI)
  assume "create_status v (creates v) < 0"
  then show "make_matmul M K N v =
        (Inl Aborted,
         (emit (Rknn_matmul_create (create_status v (creates v))) (v\<lparr>creates := creates v + 1\<rparr>))
           \<lparr>stdout := stdout v @
              [Printf ''rknn_matmul_create fail! ret=%d\<newline>'' (create_status v (creates v))]\<rparr>)"
    by (rule make_matmul_abort)
next
  assume a: "k < 4 \<and> plans_ok w (creates w) (first w) (take k [256, 512, 1024, 2048]) \<and>
    create_status w (creates w + k) < 0"
  then obtain w' where m: "main w = (Inl Aborted, w')" using main_aborts_at [of k w] by blast
  then show "\<exists>w'. main w = (Inl Aborted, w') \<and> reported_failure w w'"
    using main_outcome [OF m] by blast
next
  assume "plans_ok w (creates w) (first w) [256, 512, 1024, 2048]"
  then obtain w' where m: "main w = (Inr 0, w')" using main_completes by blast
  then show "\<exists>w'. main w = (Inr 0, w') \<and>
            occurrences failed_negotiation w' = occurrences failed_negotiation w"
    using main_outcome [OF m] by auto
next
  assume m: "main w0 = (r0, w0')"
  { assume "r0 = Inl Aborted" then show "reported_failure w0 w0'" using main_outcome [OF m] by blast }
  { assume "r0 \<noteq> Inl Aborted"
    then show "occurrences failed_negotiation w0' = occurrences failed_negotiation w0"
      using main_outcome [OF m] by blast }
  show "\<forall>c. r0 = Inr c \<longrightarrow> c = 0" using main_outcome [OF m] by blast
qed

text \<open>
  Claim C8 on three devices, from the initial state: one answers every negotiation with the
  status \<open>-3\<close>, one answers the third negotiation with \<open>-1\<close>, one accepts them all and
  asks for regions that fit.
\<close>

theorem negotiation_failure_aborts_witness:
  "(\<exists>w'. main (initial_world (\<lambda>n. 1 / 2) (\<lambda>n. int n * 3000000) (\<lambda>n. - 3)
                 (\<lambda>n. (131072, 131072, 16777216)) (\<lambda>r i. 7)) = (Inl Aborted, w') \<and>
         reported_failure
           (initial_world (\<lambda>n. 1 / 2) (\<lambda>n. int n * 3000000) (\<lambda>n. - 3)
              (\<lambda>n. (131072, 131072, 16777216)) (\<lambda>r i. 7)) w') \<and>
   (\<exists>w'. main (initial_world (\<lambda>n. 1 / 2) (\<lambda>n. int n * 3000000) (\<lambda>n. if n = 2 then - 1 else 0)
                 (\<lambda>n. (131072, 131072, 16777216)) (\<lambda>r i. 7)) = (Inl Aborted, w') \<and>
         reported_failure
           (initial_world (\<lambda>n. 1 / 2) (\<lambda>n. int n * 3000000) (\<lambda>n. if n = 2 then - 1 else 0)
              (\<lambda>n. (131072, 131072, 16777216)) (\<lambda>r i. 7)) w') \<and>
   (\<exists>w'. main (initial_world (\<lambda>n. 1 / 2) (\<lambda>n. int n * 3000000) (\<lambda>n. 0)
                 (\<lambda>n. (131072, 131072, 16777216)) (\<lambda>r i. 7)) = (Inr 0, w') \<and>
         occurrences failed_negotiation w' = 0) \<and>
   fst (make_matmul 256 256 256
          (initial_world (\<lambda>n. 1 / 2) (\<lambda>n. int n * 3000000) (\<lambda>n. - 3)
             (\<lambda>n. (131072, 131072, 16777216)) (\<lambda>r i. 7))) = Inl Aborted"
proof -
  let ?bad = "initial_world (\<lambda>n. 1 / 2) (\<lambda>n. int n * 3000000) (\<lambda>n. - 3)
                 (\<lambda>n. (131072, 131072, 16777216)) (\<lambda>r i. 7)"
  let ?late = "initial_world (\<lambda>n. 1 / 2) (\<lambda>n. int n * 3000000) (\<lambda>n. if n = 2 then - 1 else 0)
                 (\<lambda>n. (131072, 131072, 16777216)) (\<lambda>r i. 7)"
  let ?good = "initial_world (\<lambda>n. 1 / 2) (\<lambda>n. int n * 3000000) (\<lambda>n. 0)
                 (\<lambda>n. (131072, 131072, 16777216)) (\<lambda>r i. 7)"
  note bad = negotiation_failure_aborts [of ?bad 256 256 256 0 ?bad ?bad "fst (main ?bad)" "snd (main ?bad)"]
  note late = negotiation_failure_aborts [of ?bad 256 256 256 "Suc (Suc 0)" ?late ?good "fst (main ?good)" "snd (main ?good)"]
  note good = negotiation_failure_aborts [of ?bad 256 256 256 0 ?good ?good "fst (main ?good)" "snd (main ?good)"]
  have 1: "\<exists>w'. main ?bad = (Inl Aborted, w') \<and> reported_failure ?bad w'"
    using bad by (simp add: initial_world_def)
  have 2: "\<exists>w'. main ?late = (Inl Aborted, w') \<and> reported_failure ?late w'"
    using late by (simp add: initial_world_def plan_ok_def)
  have 3: "\<exists>w'. main ?good = (Inr 0, w') \<and> occurrences failed_negotiation w' = 0"
    using good by (simp add: initial_world_def plan_ok_def occurrences_def)
  have 4: "fst (make_matmul 256 256 256 ?bad) = Inl Aborted"
    using bad by (simp add: initial_world_def)
  show ?thesis using 1 2 3 4 by blast
qed

section \<open>Claims about the lifecycle of the hardware context\<close>

text \<open>
  Claim C1 says that for every benchmarked size the hardware backend converts and uploads
  the two input matrices on the first invocation of that size's backend. The code does so
  for the first size only: the flag \<open>first\<close> is a static local of the one call operator
  all closures share, so after any invocation it is \<open>false\<close> (first part), and an
  invocation that finds it \<open>false\<close> only executes the plan and reads the result (second
  part). Third part: in a run of \<open>main\<close> on a device that serves the four sizes, four
  contexts are set up (four bindings of an output region) and the plans are executed 80
  times, but each input slot is bound only five times: four times at setup and once more by
  the single upload, where the claim asks for four uploads. Fourth part: in the run of the
  loop of \<open>main\<close> over the sizes 1 and 2 with repeat count 2, from the initial state, the
  context of the first size (handle 0) gets the two uploads after its setup, and the context
  of the second size (handle 1) executes twice on input regions 3 and 4 that were never
  written.
\<close>

theorem upload_only_once:
  "first (snd (rknn c A B M K N v)) = False \<and>
   rknn c A B M K N (v\<lparr>first := False\<rparr>) =
     read_floats (mem_C c) (unat (M * N)) (rknn_matmul_run (ctx c) (v\<lparr>first := False\<rparr>)) \<and>
   (plans_ok w (creates w) (first w) [256, 512, 1024, 2048] \<longrightarrow>
      (\<exists>w'. main w = (Inr 0, w') \<and>
         occurrences (\<lambda>e. \<exists>h m. e = Rknn_matmul_set_io_mem h m Slot_C) w' =
           occurrences (\<lambda>e. \<exists>h m. e = Rknn_matmul_set_io_mem h m Slot_C) w + 4 \<and>
         occurrences (\<lambda>e. \<exists>h m. e = Rknn_matmul_set_io_mem h m Slot_A) w' =
           occurrences (\<lambda>e. \<exists>h m. e = Rknn_matmul_set_io_mem h m Slot_A) w + 4 +
             (if first w then 1 else 0) \<and>
         occurrences (\<lambda>e. \<exists>h m. e = Rknn_matmul_set_io_mem h m Slot_B) w' =
           occurrences (\<lambda>e. \<exists>h m. e = Rknn_matmul_set_io_mem h m Slot_B) w + 4 +
             (if first w then 1 else 0) \<and>
         occurrences (\<lambda>e. \<exists>h. e = Rknn_matmul_run h) w' =
           occurrences (\<lambda>e. \<exists>h. e = Rknn_matmul_run h) w + 80)) \<and>
   (\<exists>w'. main_loop [1, 2] 2
          (initial_world (\<lambda>n. 1 / 2) (\<lambda>n. int n * 3000000) (\<lambda>n. 0)
             (\<lambda>n. if n = 0 then (2, 2, 4) else (8, 8, 16)) (\<lambda>r i. 7)) = (Inr (), w') \<and>
        trace w' =
          [Call_matmul_naive, Call_matmul_naive, Call_matmul_naive, Call_cblas_sgemm, Call_cblas_sgemm,
           Rknn_matmul_create 0, Rknn_create_mem 0 0, Rknn_create_mem 0 1, Rknn_create_mem 0 2,
           Rknn_matmul_set_io_mem 0 0 Slot_A, Rknn_matmul_set_io_mem 0 1 Slot_B,
           Rknn_matmul_set_io_mem 0 2 Slot_C,
           Rknn_matmul_set_io_mem 0 0 Slot_A, Rknn_matmul_set_io_mem 0 1 Slot_B,
           Rknn_matmul_run 0, Rknn_matmul_run 0,
           Call_matmul_naive, Call_matmul_naive, Call_matmul_naive, Call_cblas_sgemm, Call_cblas_sgemm,
           Rknn_matmul_create 0, Rknn_create_mem 1 3, Rknn_create_mem 1 4, Rknn_create_mem 1 5,
           Rknn_matmul_set_io_mem 1 3 Slot_A, Rknn_matmul_set_io_mem 1 4 Slot_B,
           Rknn_matmul_set_io_mem 1 5 Slot_C,
           Rknn_matmul_run 1, Rknn_matmul_run 1] \<and>
        mems w' 0 = Some \<lparr>mem_size = 2, virt_addr = Halves [1 / 2]\<rparr> \<and>
        mems w' 1 = Some \<lparr>mem_size = 2, virt_addr = Halves [1 / 2]\<rparr> \<and>
        mems w' 3 = Some \<lparr>mem_size = 8, virt_addr = Uninitialised\<rparr> \<and>
        mems w' 4 = Some \<lparr>mem_size = 8, virt_addr = Uninitialised\<rparr>)"
proof -
  have "\<exists>w'. main w = (Inr 0, w') \<and>
         occurrences (\<lambda>e. \<exists>h m. e = Rknn_matmul_set_io_mem h m Slot_C) w' =
           occurrences (\<lambda>e. \<exists>h m. e = Rknn_matmul_set_io_mem h m Slot_C) w + 4 \<and>
         occurrences (\<lambda>e. \<exists>h m. e = Rknn_matmul_set_io_mem h m Slot_A) w' =
           occurrences (\<lambda>e. \<exists>h m. e = Rknn_matmul_set_io_mem h m Slot_A) w + 4 +
             (if first w then 1 else 0) \<and>
         occurrences (\<lambda>e. \<exists>h m. e = Rknn_matmul_set_io_mem h m Slot_B) w' =
           occurrences (\<lambda>e. \<exists>h m. e = Rknn_matmul_set_io_mem h m Slot_B) w + 4 +
             (if first w then 1 else 0) \<and>
         occurrences (\<lambda>e. \<exists>h. e = Rknn_matmul_run h) w' =
           occurrences (\<lambda>e. \<exists>h. e = Rknn_matmul_run h) w + 80"
    if "plans_ok w (creates w) (first w) [256, 512, 1024, 2048]"
  proof -
    from that obtain w' where m: "main w = (Inr 0, w')" using main_completes by blast
    show ?thesis using m main_uploads [OF m] by blast
  qed
  then show ?thesis
    using two_sizes_run rknn_clears_first [of c A B M K N v] rknn_later_call [of c A B M K N v]
    by (auto split: prod.splits)
qed

text \<open>
  The third part on the initial state and a device that accepts every negotiation and asks
  for regions that fit.
\<close>

theorem upload_only_once_witness:
  "\<exists>w'. main (initial_world (\<lambda>n. 1 / 2) (\<lambda>n. int n * 3000000) (\<lambda>n. 0)
                (\<lambda>n. (131072, 131072, 16777216)) (\<lambda>r i. 7)) = (Inr 0, w') \<and>
        occurrences (\<lambda>e. \<exists>h m. e = Rknn_matmul_set_io_mem h m Slot_C) w' = 4 \<and>
        occurrences (\<lambda>e. \<exists>h m. e = Rknn_matmul_set_io_mem h m Slot_A) w' = 5 \<and>
        occurrences (\<lambda>e. \<exists>h m. e = Rknn_matmul_set_io_mem h m Slot_B) w' = 5 \<and>
        occurrences (\<lambda>e. \<exists>h. e = Rknn_matmul_run h) w' = 80"
  using upload_only_once [of "\<lparr>ctx = 0, info = \<lparr>info_M = 1, info_K = 1, info_N = 1,
          info_type = RKNN_FLOAT16_MM_FLOAT16_TO_FLOAT32, AC_layout = 1, B_layout = 1\<rparr>,
          io_attr = \<lparr>A_size = 2, B_size = 2, C_size = 4\<rparr>, mem_A = 0, mem_B = 1, mem_C = 2,
          ctx_M = 1, ctx_K = 1, ctx_N = 1\<rparr>" "[]" "[]" 1 1 1
        "initial_world (\<lambda>n. 1 / 2) (\<lambda>n. int n * 3000000) (\<lambda>n. 0)
                (\<lambda>n. (131072, 131072, 16777216)) (\<lambda>r i. 7)"
        "initial_world (\<lambda>n. 1 / 2) (\<lambda>n. int n * 3000000) (\<lambda>n. 0)
                (\<lambda>n. (131072, 131072, 16777216)) (\<lambda>r i. 7)"]
  by (simp add: initial_world_def plan_ok_def occurrences_def)

text \<open>
  Claim C3 says that the device context of every size is destroyed exactly once, after the
  last timed invocation and before the next size. The code defines \<open>free_matmul\<close> and
  never calls it: no run of \<open>main\<close>, or of its loop over any sizes, adds a teardown event
  to the trace, whereas a call of \<open>free_matmul\<close> would add four. At the end of the run
  over the sizes 1 and 2 both contexts and all six memory regions are still allocated.
\<close>

theorem context_never_destroyed:
  "occurrences is_teardown (snd (main w)) = occurrences is_teardown w \<and>
   occurrences is_teardown (snd (main_loop sizes repeat w)) = occurrences is_teardown w \<and>
   occurrences is_teardown (free_matmul c w) = occurrences is_teardown w + 4 \<and>
   (\<exists>w'. main_loop [1, 2] 2
          (initial_world (\<lambda>n. 1 / 2) (\<lambda>n. int n * 3000000) (\<lambda>n. 0)
             (\<lambda>n. if n = 0 then (2, 2, 4) else (8, 8, 16)) (\<lambda>r i. 7)) = (Inr (), w') \<and>
         occurrences is_teardown w' = 0 \<and> contexts w' = [0, 1] \<and>
         map (\<lambda>m. mems w' m = None) [0, 1, 2, 3, 4, 5] = [False, False, False, False, False, False])"
proof -
  have "occurrences is_teardown (snd (main_loop sizes repeat w)) = occurrences is_teardown w"
    by (rule main_loop_no_teardown [of sizes repeat w "fst (main_loop sizes repeat w)"]) simp
  moreover have "\<exists>w'. main_loop [1, 2] 2
          (initial_world (\<lambda>n. 1 / 2) (\<lambda>n. int n * 3000000) (\<lambda>n. 0)
             (\<lambda>n. if n = 0 then (2, 2, 4) else (8, 8, 16)) (\<lambda>r i. 7)) = (Inr (), w') \<and>
         occurrences is_teardown w' = 0 \<and> contexts w' = [0, 1] \<and>
         map (\<lambda>m. mems w' m = None) [0, 1, 2, 3, 4, 5] = [False, False, False, False, False, False]"
    using two_sizes_run by (auto simp: occurrences_def split: prod.splits)
  ultimately show ?thesis using main_no_teardown free_matmul_teardown by blast
qed

end
